theory Spec2Isabelle
  imports Main "HOL-Library.Word"
begin

section \<open>Go runtime failures\<close>

text \<open>
  A Go panic is a value of type \<open>error\<close>; a function that can panic returns
  \<open>error + 'a\<close> with \<open>Inl\<close> for the panic.
\<close>

datatype error =
    InvalidFieldName string
  | SliceBoundsOutOfRange
  | NilPointerDereference
  | InterfaceConversion
  | LowGreaterThanHigh
  | ClientPanic

section \<open>The string functions of the Go library that tree/path.go calls\<close>

text \<open>
  A Go string is a sequence of bytes, here \<open>string\<close> (a list of 8-bit characters).
  \<open>PathSeparator\<close> is the one-byte string \<open>/\<close>, and the bracket arguments are one-byte
  literals, so \<open>strings.Split\<close>, \<open>strings.Count\<close>, \<open>strings.Index\<close> and
  \<open>strings.LastIndex\<close> are modelled for a one-byte separator.
\<close>

definition sep :: char where
  "sep = CHR ''/''"

definition PathSeparator :: string where
  "PathSeparator = [sep]"

definition lbracket :: char where
  "lbracket = CHR ''[''"

definition rbracket :: char where
  "rbracket = CHR '']''"

text \<open>\<open>strings.Split(s, c)\<close>: the pieces of \<open>s\<close> between the occurrences of \<open>c\<close>;
  the empty string gives one empty piece.\<close>

fun Split :: "string \<Rightarrow> char \<Rightarrow> string list" where
  "Split [] c = [[]]"
| "Split (x # xs) c =
     (if x = c then [] # Split xs c
      else (x # hd (Split xs c)) # tl (Split xs c))"

text \<open>\<open>strings.Join(parts, s)\<close>.\<close>

fun Join :: "string list \<Rightarrow> string \<Rightarrow> string" where
  "Join [] s = []"
| "Join [x] s = x"
| "Join (x # y # ys) s = x @ s @ Join (y # ys) s"

text \<open>\<open>strings.Index(s, c)\<close>: the position of the first \<open>c\<close>, or -1.\<close>

fun IndexByte :: "string \<Rightarrow> char \<Rightarrow> int" where
  "IndexByte [] c = -1"
| "IndexByte (x # xs) c =
     (if x = c then 0
      else (let r = IndexByte xs c in if r = -1 then -1 else r + 1))"

text \<open>\<open>strings.LastIndex(s, c)\<close>: the position of the last \<open>c\<close>, or -1.\<close>

fun LastIndex :: "string \<Rightarrow> char \<Rightarrow> int" where
  "LastIndex [] c = -1"
| "LastIndex (x # xs) c =
     (let r = LastIndex xs c in
      if r \<noteq> -1 then r + 1 else if x = c then 0 else -1)"

text \<open>\<open>strings.Count(s, c)\<close>.\<close>

definition Count :: "string \<Rightarrow> char \<Rightarrow> int" where
  "Count s c = int (length (filter (\<lambda>x. x = c) s))"

text \<open>\<open>strings.HasPrefix(s, [c])\<close>.\<close>

definition HasPrefix :: "string \<Rightarrow> char \<Rightarrow> bool" where
  "HasPrefix s c = (case s of [] \<Rightarrow> False | x # _ \<Rightarrow> x = c)"

text \<open>\<open>strings.ContainsAny(s, chars)\<close> for ASCII \<open>chars\<close>.\<close>

definition ContainsAny :: "string \<Rightarrow> string \<Rightarrow> bool" where
  "ContainsAny s chars = list_ex (\<lambda>x. x \<in> set chars) s"

text \<open>The slice expression \<open>s[a:b]\<close>, which panics out of range.\<close>

definition substr :: "string \<Rightarrow> int \<Rightarrow> int \<Rightarrow> error + string" where
  "substr s a b =
     (if 0 \<le> a \<and> a \<le> b \<and> b \<le> int (length s)
      then Inr (take (nat (b - a)) (drop (nat a) s))
      else Inl SliceBoundsOutOfRange)"

text \<open>\<open>fmt.Sprintf("%d", i)\<close>: the decimal digits, after a minus sign for a negative number.\<close>

definition digits :: string where
  "digits = ''0123456789''"

definition digit_char :: "nat \<Rightarrow> char" where
  "digit_char d = digits ! d"

function show_nat :: "nat \<Rightarrow> string" where
  "show_nat n = (if n < 10 then [digit_char n] else show_nat (n div 10) @ [digit_char (n mod 10)])"
  by pat_completeness auto
termination
  by (relation "measure id") auto

declare show_nat.simps [simp del]

definition show_int :: "int \<Rightarrow> string" where
  "show_int i = (if i < 0 then CHR ''-'' # show_nat (nat (- i)) else show_nat (nat i))"

text \<open>
  \<open>strconv.Atoi\<close> on a 64-bit platform, its error result dropped as the caller drops it:
  an optional sign and one or more decimal digits; 0 on a syntax error, the nearest
  64-bit bound when the number is out of range.
\<close>

definition digit_val :: "char \<Rightarrow> nat option" where
  \<comment> \<open>\<open>ch -= '0'\<close> on a byte, which wraps, and then the test \<open>ch > 9\<close>\<close>
  "digit_val c =
     (let ch = (of_char c + 256 - 48) mod 256 :: nat
      in if ch > 9 then None else Some ch)"

fun parse_digits :: "string \<Rightarrow> nat \<Rightarrow> nat option" where
  "parse_digits [] acc = Some acc"
| "parse_digits (c # cs) acc =
     (case digit_val c of None \<Rightarrow> None | Some d \<Rightarrow> parse_digits cs (acc * 10 + d))"

definition Atoi :: "string \<Rightarrow> int" where
  "Atoi s =
     (let neg = (case s of [] \<Rightarrow> False | c # _ \<Rightarrow> c = CHR ''-'');
          body = (case s of [] \<Rightarrow> [] | c # r \<Rightarrow> if c = CHR ''-'' \<or> c = CHR ''+'' then r else s)
      in if body = [] then 0
         else (case parse_digits body 0 of
                 None \<Rightarrow> 0
               | Some n \<Rightarrow>
                   if neg then (if int n > 2 ^ 63 then - (2 ^ 63) else - int n)
                   else (if int n \<ge> 2 ^ 63 then 2 ^ 63 - 1 else int n)))"

subsection \<open>Facts about the string functions\<close>

lemma Split_not_Nil: "Split s c \<noteq> []"
  by (cases s) auto

lemma Split_nosep: "c \<notin> set t \<Longrightarrow> Split t c = [t]"
  by (induction t) auto

lemma Split_append_sep: "Split (s @ c # t) c = Split s c @ Split t c"
proof (induction s)
  case Nil
  show ?case by simp
next
  case (Cons x s)
  have ne: "Split s c \<noteq> []" by (rule Split_not_Nil)
  show ?case using Cons ne by (cases "Split s c") auto
qed

lemma Split_snoc_nosep:
  "c \<notin> set t \<Longrightarrow> Split s c = ys @ [l] \<Longrightarrow> Split (s @ t) c = ys @ [l @ t]"
proof (induction s arbitrary: ys l)
  case Nil
  then show ?case by (simp add: Split_nosep)
next
  case (Cons x s)
  obtain zs k where sp: "Split s c = zs @ [k]"
    using Split_not_Nil[of s c] by (metis append_butlast_last_id)
  have ih: "Split (s @ t) c = zs @ [k @ t]"
    using Cons.IH[OF Cons.prems(1) sp] .
  show ?case
  proof (cases "x = c")
    case True
    then show ?thesis using Cons.prems(2) sp ih by auto
  next
    case False
    show ?thesis
    proof (cases zs)
      case Nil
      then show ?thesis using Cons.prems(2) sp ih False by auto
    next
      case (Cons z zs')
      then show ?thesis using Cons.prems(2) sp ih False by auto
    qed
  qed
qed

lemma Split_append_nosep:
  "c \<notin> set t \<Longrightarrow> Split (s @ t) c = butlast (Split s c) @ [last (Split s c) @ t]"
  using Split_snoc_nosep[of c t s "butlast (Split s c)" "last (Split s c)"] Split_not_Nil[of s c]
  by simp

lemma Join_snoc: "xs \<noteq> [] \<Longrightarrow> Join (xs @ [x]) s = Join xs s @ s @ x"
  by (induction xs s rule: Join.induct) auto

lemma Join_Split: "Join (Split s c) [c] = s"
proof (induction s)
  case Nil
  show ?case by simp
next
  case (Cons x s)
  have ne: "Split s c \<noteq> []" by (rule Split_not_Nil)
  then obtain y ys where sp: "Split s c = y # ys" by (cases "Split s c") auto
  show ?case using Cons sp by (cases ys) auto
qed

lemma LastIndex_range: "-1 \<le> LastIndex s c \<and> LastIndex s c < int (length s)"
  by (induction s) (auto simp: Let_def)

lemma LastIndex_neg_iff: "LastIndex s c = -1 \<longleftrightarrow> c \<notin> set s"
proof (induction s)
  case Nil show ?case by simp
next
  case (Cons x s)
  have "-1 \<le> LastIndex s c" using LastIndex_range[of s c] by simp
  then show ?case using Cons by (auto simp: Let_def)
qed

lemma IndexByte_neg_iff: "IndexByte s c = -1 \<longleftrightarrow> c \<notin> set s"
proof (induction s)
  case Nil show ?case by simp
next
  case (Cons x s)
  have "-1 \<le> IndexByte s c" by (induction s) (auto simp: Let_def)
  then show ?case using Cons by (auto simp: Let_def)
qed

lemma LastIndex_append: "c \<notin> set t \<Longrightarrow> LastIndex (s @ c # t) c = int (length s)"
proof (induction s)
  case Nil
  then show ?case using LastIndex_neg_iff[of t c] by (simp add: Let_def)
next
  case (Cons x s)
  then show ?case by (simp add: Let_def)
qed

section \<open>tree/path.go\<close>

type_synonym Path = string

definition NewPath :: Path where
  "NewPath = PathSeparator"

definition IsEqual :: "Path \<Rightarrow> Path \<Rightarrow> bool" where
  "IsEqual p op = (p = op)"

definition IsRoot :: "Path \<Rightarrow> bool" where
  "IsRoot p = (p = PathSeparator)"

definition IsAbsolute :: "Path \<Rightarrow> bool" where
  "IsAbsolute p = HasPrefix p sep"

definition IsArrayElement :: "Path \<Rightarrow> bool" where
  "IsArrayElement p =
     (if IsRoot p then False
      else (let parts = Split p sep; lastPart = last parts
            in IndexByte lastPart lbracket \<noteq> -1))"

text \<open>
  \<open>Up\<close>. Its three slice expressions stay in range (\<open>Up_array_slice_in_range\<close>,
  \<open>Up_absolute_slice_in_range\<close> and \<open>Split_not_Nil\<close> below) and cannot panic, so they
  are written with total list functions: \<open>string(p)[0:index]\<close> is \<open>take index p\<close>,
  \<open>parts[1:len(parts)-1]\<close> is \<open>butlast (tl parts)\<close> and \<open>parts[0:len(parts)-1]\<close> is
  \<open>butlast parts\<close>.
\<close>

definition Up :: "Path \<Rightarrow> Path" where
  "Up p =
     (if IsRoot p then p
      else if IsArrayElement p then
        (let index = LastIndex p lbracket in take (nat index) p)
      else
        (let parts = Split p sep in
         if IsAbsolute p then CHR ''/'' # Join (butlast (tl parts)) PathSeparator
         else Join (butlast parts) PathSeparator))"

definition isValidFieldName :: "string \<Rightarrow> bool" where
  "isValidFieldName fieldName =
     (let forbiddenRunes = ''[]'' @ PathSeparator in \<not> ContainsAny fieldName forbiddenRunes)"

definition DownField :: "Path \<Rightarrow> string \<Rightarrow> error + Path" where
  "DownField p fieldName =
     (if \<not> isValidFieldName fieldName then Inl (InvalidFieldName fieldName)
      else if IsAbsolute p \<and> IsRoot p then Inr (p @ fieldName)
      else Inr (p @ PathSeparator @ fieldName))"

definition DownIndex :: "Path \<Rightarrow> int \<Rightarrow> Path" where
  "DownIndex p index = p @ ''['' @ show_int index @ '']''"

definition Index :: "Path \<Rightarrow> error + int" where
  "Index p =
     (if \<not> IsArrayElement p then Inr (-1)
      else (let parts = Split p sep;
                lastPart = last parts;
                startOfIndex = LastIndex lastPart lbracket + 2;
                endOfIndex = LastIndex lastPart rbracket + 1
            in case substr p startOfIndex endOfIndex of
                 Inl e \<Rightarrow> Inl e
               | Inr indexStr \<Rightarrow> Inr (Atoi indexStr)))"

definition FieldName :: "Path \<Rightarrow> string" where
  "FieldName p =
     (if IsRoot p \<or> IsArrayElement p then []
      else last (Split p sep))"

definition Depth :: "Path \<Rightarrow> int" where
  "Depth p =
     (if IsRoot p then 0
      else (let countRoot = (if IsAbsolute p then 1 else 0)
            in Count p sep - countRoot + Count p lbracket))"

lemma digit_char_set: "d < 10 \<Longrightarrow> digit_char d \<in> set digits"
  unfolding digit_char_def by (rule nth_mem) (simp add: digits_def)

lemma show_nat_set: "set (show_nat n) \<subseteq> set digits"
proof (induction n rule: show_nat.induct)
  case (1 n)
  show ?case
  proof (cases "n < 10")
    case True
    then show ?thesis using digit_char_set[of n] by (subst show_nat.simps) simp
  next
    case False
    have "n mod 10 < 10" by simp
    then have "digit_char (n mod 10) \<in> set digits" by (rule digit_char_set)
    then show ?thesis using 1[OF False] False by (subst show_nat.simps) simp
  qed
qed

lemma show_int_set: "set (show_int i) \<subseteq> insert (CHR ''-'') (set digits)"
  using show_nat_set[of "nat i"] show_nat_set[of "nat (- i)"]
  unfolding show_int_def by auto

lemma digits_no_special:
  "sep \<notin> insert (CHR ''-'') (set digits)"
  "lbracket \<notin> insert (CHR ''-'') (set digits)"
  "rbracket \<notin> insert (CHR ''-'') (set digits)"
  by (simp_all add: digits_def sep_def lbracket_def rbracket_def)

lemma show_int_no_special:
  "sep \<notin> set (show_int i)" "lbracket \<notin> set (show_int i)" "rbracket \<notin> set (show_int i)"
  using show_int_set[of i] digits_no_special by blast+

lemma show_nat_not_Nil: "show_nat n \<noteq> []"
  by (subst show_nat.simps) simp

lemma show_int_not_Nil: "show_int i \<noteq> []"
  by (simp add: show_int_def show_nat_not_Nil)

text \<open>The text that \<open>DownIndex\<close> appends.\<close>

definition index_marker :: "int \<Rightarrow> string" where
  "index_marker i = lbracket # show_int i @ [rbracket]"

lemma DownIndex_marker: "DownIndex p i = p @ index_marker i"
  by (simp add: DownIndex_def index_marker_def lbracket_def rbracket_def)

lemma index_marker_nosep: "sep \<notin> set (index_marker i)"
  using show_int_no_special(1)[of i] by (simp add: index_marker_def sep_def lbracket_def rbracket_def)

lemma DownIndex_not_root: "\<not> IsRoot (DownIndex p i)"
proof
  assume "IsRoot (DownIndex p i)"
  then have eq: "p @ index_marker i = [sep]"
    by (simp add: IsRoot_def PathSeparator_def DownIndex_marker)
  have "lbracket \<in> set (p @ index_marker i)" by (simp add: index_marker_def)
  then have "lbracket \<in> set [sep]" unfolding eq .
  then show False by (simp add: sep_def lbracket_def)
qed

lemma last_Split_DownIndex:
  "last (Split (DownIndex p i) sep) = last (Split p sep) @ index_marker i"
  by (simp add: DownIndex_marker Split_append_nosep[OF index_marker_nosep])


lemma IsArrayElement_DownIndex: "IsArrayElement (DownIndex p i)"
  by (simp add: IsArrayElement_def DownIndex_not_root Let_def last_Split_DownIndex
      IndexByte_neg_iff index_marker_def)

lemma LastIndex_marker: "LastIndex (s @ index_marker i) lbracket = int (length s)"
proof -
  have "lbracket \<notin> set (show_int i @ [rbracket])"
    using show_int_no_special(2)[of i] by (simp add: lbracket_def rbracket_def)
  then show ?thesis unfolding index_marker_def by (rule LastIndex_append)
qed

lemma Up_DownIndex: "Up (DownIndex p i) = p"
  by (simp add: Up_def DownIndex_not_root IsArrayElement_DownIndex Let_def)
     (simp add: DownIndex_marker LastIndex_marker)

lemma isValidFieldName_iff:
  "isValidFieldName n \<longleftrightarrow> sep \<notin> set n \<and> lbracket \<notin> set n \<and> rbracket \<notin> set n"
  by (auto simp: isValidFieldName_def ContainsAny_def PathSeparator_def list_ex_iff
      lbracket_def rbracket_def)

lemma Join_butlast_Split_snoc:
  "sep \<notin> set n \<Longrightarrow> Join (butlast (Split (s @ sep # n) sep)) [sep] = s"
  by (simp add: Split_append_sep Split_nosep butlast_append Join_Split)

lemma IsArrayElement_field:
  "lbracket \<notin> set n \<Longrightarrow> sep \<notin> set n \<Longrightarrow> \<not> IsArrayElement (p @ sep # n)"
  by (simp add: IsArrayElement_def Let_def Split_append_sep Split_nosep IndexByte_neg_iff)

lemma Up_DownField_root:
  assumes "isValidFieldName n" 
  shows "Up (NewPath @ n) = NewPath"
proof (cases "n = []")
  case True
  then show ?thesis by (simp add: Up_def IsRoot_def NewPath_def)
next
  case False
  from assms have v: "sep \<notin> set n" "lbracket \<notin> set n" by (simp_all add: isValidFieldName_iff)
  have nr: "\<not> IsRoot (sep # n)" using False by (simp add: IsRoot_def PathSeparator_def)
  have na: "\<not> IsArrayElement (sep # n)" using IsArrayElement_field[OF v(2) v(1), of "[]"] by simp
  have ab: "IsAbsolute (sep # n)" by (simp add: IsAbsolute_def HasPrefix_def)
  have sp: "Split (sep # n) sep = [[], n]" using v(1) by (simp add: Split_nosep)
  show ?thesis using nr na ab sp
    by (simp add: Up_def NewPath_def PathSeparator_def Let_def sep_def)
qed

lemma Up_DownField_nonroot:
  assumes "isValidFieldName n" "p \<noteq> []"
  shows "Up (p @ PathSeparator @ n) = p"
proof -
  from assms have v: "sep \<notin> set n" "lbracket \<notin> set n" by (simp_all add: isValidFieldName_iff)
  let ?q = "p @ sep # n"
  have nr: "\<not> IsRoot ?q" using assms(2) by (cases p) (auto simp: IsRoot_def PathSeparator_def)
  have na: "\<not> IsArrayElement ?q" by (rule IsArrayElement_field[OF v(2) v(1)])
  obtain x xs where p: "p = x # xs" using assms(2) by (cases p) auto
  show ?thesis
  proof (cases "x = sep")
    case True
    have ab: "IsAbsolute ?q" using p True by (simp add: IsAbsolute_def HasPrefix_def)
    have "Split ?q sep = [] # Split (xs @ sep # n) sep" using p True by simp
    then have "Join (butlast (tl (Split ?q sep))) PathSeparator = xs"
      using Join_butlast_Split_snoc[OF v(1), of xs] by (simp add: PathSeparator_def)
    then show ?thesis using nr na ab p True
      by (simp add: Up_def Let_def PathSeparator_def sep_def)
  next
    case False
    have ab: "\<not> IsAbsolute ?q" using p False by (simp add: IsAbsolute_def HasPrefix_def)
    have "Join (butlast (Split ?q sep)) PathSeparator = p"
      using Join_butlast_Split_snoc[OF v(1), of p] by (simp add: PathSeparator_def)
    then show ?thesis using nr na ab
      by (simp add: Up_def Let_def PathSeparator_def)
  qed
qed

lemma Up_DownField:
  assumes "isValidFieldName n" "p \<noteq> []" "DownField p n = Inr q"
  shows "Up q = p"
proof (cases "IsRoot p")
  case True
  then have "q = NewPath @ n" "p = NewPath" using assms
    by (auto simp: DownField_def IsRoot_def NewPath_def IsAbsolute_def HasPrefix_def PathSeparator_def)
  then show ?thesis using Up_DownField_root[OF assms(1)] by simp
next
  case False
  then have "q = p @ PathSeparator @ n" using assms by (auto simp: DownField_def)
  then show ?thesis using Up_DownField_nonroot[OF assms(1,2)] by simp
qed

lemma Up_root: "Up NewPath = NewPath"
  by (simp add: Up_def IsRoot_def NewPath_def)

text \<open>The paths of the grammar: those that \<open>DownField\<close> and \<open>DownIndex\<close> build from the root.\<close>

inductive built :: "Path \<Rightarrow> bool" where
  built_root: "built NewPath"
| built_field: "built p \<Longrightarrow> DownField p n = Inr q \<Longrightarrow> built q"
| built_index: "built p \<Longrightarrow> built (DownIndex p i)"

lemma DownField_Inr:
  "DownField p n = Inr q \<Longrightarrow>
     isValidFieldName n \<and> q = (if IsRoot p then p @ n else p @ PathSeparator @ n)"
  by (auto simp: DownField_def IsRoot_def IsAbsolute_def HasPrefix_def PathSeparator_def
      split: if_splits)

lemma IsAbsolute_appendI: "IsAbsolute p \<Longrightarrow> IsAbsolute (p @ t)"
  by (cases p) (auto simp: IsAbsolute_def HasPrefix_def)

lemma built_absolute: "built p \<Longrightarrow> IsAbsolute p"
proof (induction rule: built.induct)
  case built_root
  show ?case by (simp add: NewPath_def PathSeparator_def IsAbsolute_def HasPrefix_def)
next
  case (built_field p n q)
  from DownField_Inr[OF built_field.hyps(2)]
  have "q = p @ n \<or> q = p @ PathSeparator @ n" by (simp split: if_splits)
  then show ?case using IsAbsolute_appendI[OF built_field.IH] by auto
next
  case (built_index p i)
  show ?case unfolding DownIndex_marker by (rule IsAbsolute_appendI[OF built_index.IH])
qed

lemma built_not_Nil: "built p \<Longrightarrow> p \<noteq> []"
proof
  assume "built p" "p = []"
  then have "IsAbsolute []" using built_absolute by blast
  then show False by (simp add: IsAbsolute_def HasPrefix_def)
qed

lemma Count_append: "Count (s @ t) c = Count s c + Count t c"
  by (simp add: Count_def)

lemma Count_absent: "c \<notin> set t \<Longrightarrow> Count t c = 0"
  by (induction t) (auto simp: Count_def)

lemma Count_marker: "Count (index_marker i) sep = 0" "Count (index_marker i) lbracket = 1"
proof -
  show "Count (index_marker i) sep = 0" by (rule Count_absent[OF index_marker_nosep])
  have "Count (show_int i @ [rbracket]) lbracket = 0"
    using show_int_no_special(2)[of i] by (intro Count_absent) (simp add: lbracket_def rbracket_def)
  then show "Count (index_marker i) lbracket = 1"
    by (simp add: index_marker_def Count_def)
qed

lemma Depth_alt:
  "Depth p = Count p sep - (if IsAbsolute p then 1 else 0) + Count p lbracket"
  by (auto simp: Depth_def IsRoot_def PathSeparator_def IsAbsolute_def HasPrefix_def Count_def
      sep_def lbracket_def)

lemma Depth_root: "Depth NewPath = 0"
  by (simp add: Depth_def IsRoot_def NewPath_def)

lemma IsAbsolute_append: "p \<noteq> [] \<Longrightarrow> IsAbsolute (p @ t) = IsAbsolute p"
  by (cases p) (auto simp: IsAbsolute_def HasPrefix_def)

lemma Depth_DownIndex: "Depth (DownIndex p i) = Depth p + 1"
proof (cases "p = []")
  case True
  then show ?thesis
    by (simp add: Depth_alt DownIndex_marker Count_marker)
       (simp add: IsAbsolute_def HasPrefix_def index_marker_def Count_def lbracket_def sep_def)
next
  case False
  then show ?thesis
    by (simp add: Depth_alt DownIndex_marker Count_append Count_marker IsAbsolute_append)
qed

lemma Depth_DownField_root:
  assumes "isValidFieldName n"
  shows "Depth (NewPath @ n) = 0"
proof -
  from assms have "Count n sep = 0" "Count n lbracket = 0"
    by (simp_all add: isValidFieldName_iff Count_absent)
  then show ?thesis
    by (simp add: Depth_alt NewPath_def PathSeparator_def Count_append IsAbsolute_def HasPrefix_def)
       (simp add: Count_def sep_def lbracket_def)
qed

lemma Depth_DownField_nonroot:
  assumes "isValidFieldName n" "p \<noteq> []"
  shows "Depth (p @ PathSeparator @ n) = Depth p + 1"
proof -
  from assms have "Count n sep = 0" "Count n lbracket = 0"
    by (simp_all add: isValidFieldName_iff Count_absent)
  moreover have "Count [sep] sep = 1" "Count [sep] lbracket = 0"
    by (simp_all add: Count_def sep_def lbracket_def)
  ultimately show ?thesis using assms(2)
    by (simp add: Depth_alt PathSeparator_def Count_append IsAbsolute_append
        Count_append[of "[sep]" n, simplified])
qed

lemma Depth_nonneg: "0 \<le> Depth p"
proof -
  have "IsAbsolute p \<Longrightarrow> 1 \<le> Count p sep"
    by (cases p) (auto simp: IsAbsolute_def HasPrefix_def Count_def)
  moreover have "0 \<le> Count p sep" "0 \<le> Count p lbracket" by (simp_all add: Count_def)
  ultimately show ?thesis by (auto simp: Depth_alt)
qed

lemma Up_Depth_Suc:
  "built p \<Longrightarrow> (Up ^^ Suc (nat (Depth p))) p = NewPath"
proof (induction rule: built.induct)
  case built_root
  show ?case by (simp add: Depth_root Up_root)
next
  case (built_field p n q)
  from DownField_Inr[OF built_field.hyps(2)]
  have v: "isValidFieldName n" and q: "q = (if IsRoot p then p @ n else p @ PathSeparator @ n)"
    by simp_all
  have ne: "p \<noteq> []" using built_field.hyps(1) by (rule built_not_Nil)
  show ?case
  proof (cases "IsRoot p")
    case True
    then have "q = NewPath @ n" using q by (simp add: IsRoot_def NewPath_def)
    then show ?thesis using Depth_DownField_root[OF v] Up_DownField_root[OF v] by simp
  next
    case False
    then have q': "q = p @ PathSeparator @ n" using q by simp
    have d: "Depth q = Depth p + 1" unfolding q' by (rule Depth_DownField_nonroot[OF v ne])
    have u: "Up q = p" unfolding q' by (rule Up_DownField_nonroot[OF v ne])
    have "nat (Depth q) = Suc (nat (Depth p))" using d Depth_nonneg[of p] by simp
    then have "(Up ^^ Suc (nat (Depth q))) q = (Up ^^ Suc (nat (Depth p))) (Up q)"
      by (simp only: funpow_Suc_right o_apply)
    then show ?thesis using u built_field.IH by simp
  qed
next
  case (built_index p i)
  have "nat (Depth (DownIndex p i)) = Suc (nat (Depth p))"
    using Depth_DownIndex[of p i] Depth_nonneg[of p] by simp
  then have "(Up ^^ Suc (nat (Depth (DownIndex p i)))) (DownIndex p i)
             = (Up ^^ Suc (nat (Depth p))) (Up (DownIndex p i))"
    by (simp only: funpow_Suc_right o_apply)
  then show ?case using built_index.IH by (simp add: Up_DownIndex)
qed

lemma length_Join_butlast:
  "s \<noteq> [] \<Longrightarrow> length (Join (butlast (Split s c)) [c]) < length s"
proof -
  assume ne: "s \<noteq> []"
  obtain ys l where sp: "Split s c = ys @ [l]"
    using Split_not_Nil[of s c] by (metis append_butlast_last_id)
  have js: "Join (ys @ [l]) [c] = s" using Join_Split[of s c] sp by simp
  show ?thesis
  proof (cases "ys = []")
    case True
    then show ?thesis using sp ne by simp
  next
    case False
    then have "s = Join ys [c] @ [c] @ l" using js Join_snoc[OF False, of l "[c]"] by simp
    then have "length s = length (Join ys [c]) + 1 + length l" by (metis length_append One_nat_def length_Cons list.size(3) add.assoc)
    then show ?thesis using sp by simp
  qed
qed

lemma IsArrayElement_has_bracket: "IsArrayElement p \<Longrightarrow> lbracket \<in> set p"
proof -
  assume a: "IsArrayElement p"
  then have "lbracket \<in> set (last (Split p sep))"
    by (auto simp: IsArrayElement_def Let_def IndexByte_neg_iff split: if_splits)
  moreover have "set (last (Split p sep)) \<subseteq> set p"
  proof -
    have "set (Join xs [sep]) \<supseteq> set (last xs)" if "xs \<noteq> []" for xs :: "string list"
      using that by (induction xs "[sep]" rule: Join.induct) auto
    then show ?thesis using Split_not_Nil[of p sep] Join_Split[of p sep] by metis
  qed
  ultimately show ?thesis by blast
qed

lemma Up_array_slice_in_range:
  "IsArrayElement p \<Longrightarrow> 0 \<le> LastIndex p lbracket \<and> LastIndex p lbracket \<le> int (length p)"
  using IsArrayElement_has_bracket[of p] LastIndex_neg_iff[of p lbracket] LastIndex_range[of p lbracket]
  by auto

lemma Up_absolute_slice_in_range:
  "IsAbsolute p \<Longrightarrow> 1 \<le> length (Split p sep) - 1"
proof -
  assume "IsAbsolute p"
  then obtain xs where "p = sep # xs" by (cases p) (auto simp: IsAbsolute_def HasPrefix_def)
  then show ?thesis using Split_not_Nil[of xs sep] by (cases "Split xs sep") auto
qed

lemma Up_shorter:
  assumes "\<not> IsRoot p" "p \<noteq> []"
  shows "length (Up p) < length p"
proof (cases "IsArrayElement p")
  case True
  then show ?thesis using assms Up_array_slice_in_range[OF True] LastIndex_range[of p lbracket]
    by (simp add: Up_def Let_def)
next
  case False
  obtain x xs where p: "p = x # xs" using assms(2) by (cases p) auto
  show ?thesis
  proof (cases "IsAbsolute p")
    case True
    then have x: "x = sep" using p by (simp add: IsAbsolute_def HasPrefix_def)
    have "xs \<noteq> []" using assms(1) p x by (simp add: IsRoot_def PathSeparator_def)
    then have "length (Join (butlast (Split xs sep)) [sep]) < length xs"
      by (rule length_Join_butlast)
    then show ?thesis using assms(1) False True p x
      by (simp add: Up_def Let_def PathSeparator_def)
  next
    case na: False
    have "length (Join (butlast (Split p sep)) [sep]) < length p"
      using assms(2) by (rule length_Join_butlast)
    then show ?thesis using assms(1) False na
      by (simp add: Up_def Let_def PathSeparator_def)
  qed
qed

text \<open>
  \<open>EachComponent\<close>. The first loop collects the path and its ancestors, leaf first; the
  second replays them root first. A callback is a function on the state that the Go
  closure captures, returning its boolean and the new state.
\<close>

function collect_parts :: "Path \<Rightarrow> Path list" where
  "collect_parts part =
     (if \<not> IsRoot part \<and> length part \<noteq> 0 then part # collect_parts (Up part) else [])"
  by pat_completeness auto
termination
  by (relation "measure length") (auto simp: Up_shorter)

declare collect_parts.simps [simp del]

fun each_part ::
  "Path list \<Rightarrow> (string \<Rightarrow> 's \<Rightarrow> bool \<times> 's) \<Rightarrow> (int \<Rightarrow> 's \<Rightarrow> bool \<times> 's) \<Rightarrow> 's \<Rightarrow> (error + bool) \<times> 's"
where
  "each_part [] fieldName index s = (Inr True, s)"
| "each_part (part # rest) fieldName index s =
     (if IsArrayElement part then
        (case Index part of
           Inl e \<Rightarrow> (Inl e, s)
         | Inr i \<Rightarrow>
             (case index i s of
                (False, s') \<Rightarrow> (Inr False, s')
              | (True, s') \<Rightarrow> each_part rest fieldName index s'))
      else
        (case fieldName (FieldName part) s of
           (False, s') \<Rightarrow> (Inr False, s')
         | (True, s') \<Rightarrow> each_part rest fieldName index s'))"

definition EachComponent ::
  "Path \<Rightarrow> (string \<Rightarrow> 's \<Rightarrow> bool \<times> 's) \<Rightarrow> (int \<Rightarrow> 's \<Rightarrow> bool \<times> 's) \<Rightarrow> 's \<Rightarrow> (error + bool) \<times> 's"
where
  "EachComponent p fieldName index s = each_part (rev (collect_parts p)) fieldName index s"

text \<open>
  Callbacks that record what they are called with, and go on: the sequence of
  invocations that \<open>EachComponent\<close> makes is the final state.
\<close>

datatype component = FieldComponent string | IndexComponent int

definition record_field :: "string \<Rightarrow> component list \<Rightarrow> bool \<times> component list" where
  "record_field name s = (True, s @ [FieldComponent name])"

definition record_index :: "int \<Rightarrow> component list \<Rightarrow> bool \<times> component list" where
  "record_index i s = (True, s @ [IndexComponent i])"

lemma build_a_b_3:
  "DownField NewPath ''a'' = Inr ''/a''" "DownField ''/a'' ''b'' = Inr ''/a/b''"
  "DownIndex ''/a/b'' 3 = ''/a/b[3]''"
  by code_simp+

lemma last_Split_field: "sep \<notin> set n \<Longrightarrow> last (Split (p @ sep # n) sep) = n"
  by (simp add: Split_append_sep Split_nosep)

lemma FieldName_DownField:
  assumes "DownField p n = Inr q"
  shows "FieldName q = n"
proof -
  from DownField_Inr[OF assms]
  have v: "isValidFieldName n" and q: "q = (if IsRoot p then p @ n else p @ PathSeparator @ n)"
    by simp_all
  from v have s: "sep \<notin> set n" and l: "lbracket \<notin> set n" by (simp_all add: isValidFieldName_iff)
  show ?thesis
  proof (cases "IsRoot q")
    case True
    then have "q = [sep]" by (simp add: IsRoot_def PathSeparator_def)
    then have "n = []" using q by (auto simp: IsRoot_def PathSeparator_def append_eq_Cons_conv split: if_splits)
    then show ?thesis using True by (simp add: FieldName_def)
  next
    case False
    have "\<exists>r. q = r @ sep # n"
    proof (cases "IsRoot p")
      case True
      then have "q = [] @ sep # n" using q by (simp add: IsRoot_def PathSeparator_def)
      then show ?thesis by blast
    next
      case False
      then have "q = p @ sep # n" using q by (simp add: PathSeparator_def)
      then show ?thesis by blast
    qed
    then obtain r where r: "q = r @ sep # n" by blast
    have "\<not> IsArrayElement q" unfolding r by (rule IsArrayElement_field[OF l s])
    then show ?thesis using False by (simp add: FieldName_def r last_Split_field[OF s])
  qed
qed

section \<open>Claims about tree/path.go\<close>

text \<open>
  C2, at a failing input. \<open>Index\<close> finds the brackets in the last
  separator-delimited part of the path and then slices the whole path at those
  offsets plus one, which is right only while the last part starts at offset 1. For
  the path \<open>/a/b[3]\<close>, built from the root by \<open>DownField "a"\<close>, \<open>DownField "b"\<close> and
  \<open>DownIndex 3\<close>, the slice is \<open>b\<close>, \<open>strconv.Atoi\<close> fails on it, and \<open>Index\<close> returns
  0 where the claim says 3.
\<close>

theorem Index_below_first_level:
  "DownField NewPath ''a'' = Inr ''/a'' \<and> DownField ''/a'' ''b'' = Inr ''/a/b'' \<and>
   DownIndex ''/a/b'' 3 = ''/a/b[3]'' \<and> Index ''/a/b[3]'' = Inr 0"
  by code_simp

text \<open>
  C6, at a failing input. For the same path \<open>/a/b[3]\<close>, \<open>EachComponent\<close> calls the
  field callback with \<open>a\<close> and \<open>b\<close> and then the index callback with 0, the value of
  \<open>Index\<close> there, where the claim says index 3.
\<close>

theorem EachComponent_below_first_level:
  "DownField NewPath ''a'' = Inr ''/a'' \<and> DownField ''/a'' ''b'' = Inr ''/a/b'' \<and>
   DownIndex ''/a/b'' 3 = ''/a/b[3]'' \<and>
   EachComponent ''/a/b[3]'' record_field record_index [] =
     (Inr True, [FieldComponent ''a'', FieldComponent ''b'', IndexComponent 0])"
  by code_simp

text \<open>The example of the claim, whose index markers are on the first level, is as the claim says.\<close>

lemma EachComponent_example:
  "DownField NewPath ''a'' = Inr ''/a'' \<and> DownIndex (DownIndex ''/a'' 1) 4 = ''/a[1][4]'' \<and>
   EachComponent ''/a[1][4]'' record_field record_index [] =
     (Inr True, [FieldComponent ''a'', IndexComponent 1, IndexComponent 4])"
  by code_simp

text \<open>When a callback returns false, here the index callback at its first call, nothing more is called.\<close>

lemma EachComponent_stops_early:
  "EachComponent ''/a[1][4]'' record_field (\<lambda>i s. (False, s @ [IndexComponent i])) [] =
     (Inr False, [FieldComponent ''a'', IndexComponent 1])"
  by code_simp

text \<open>
  C3, as stated, fails: the path \<open>/a\<close> is built from the root, its depth is 0, and
  applying \<open>Up\<close> zero times leaves \<open>/a\<close>, which is not the root.
\<close>

theorem Up_Depth_times_counterexample:
  "built ''/a'' \<and> (Up ^^ nat (Depth ''/a'')) ''/a'' \<noteq> NewPath"
proof -
  have d: "DownField NewPath ''a'' = Inr ''/a''" by code_simp
  have b: "built ''/a''" by (rule built_field[OF built_root d])
  have "Depth ''/a'' = 0" by code_simp
  then have "(Up ^^ nat (Depth ''/a'')) ''/a'' = ''/a''" by simp
  moreover have "''/a'' \<noteq> NewPath" by code_simp
  ultimately show ?thesis using b by simp
qed

text \<open>
  C3, as amended. For every path \<open>p\<close> built from the root with \<open>DownField\<close> and
  \<open>DownIndex\<close>, applying \<open>Up\<close> \<open>Depth p + 1\<close> times yields the root path, and applying
  it once more still yields the root. (\<open>Depth p\<close> applications are not enough: a field
  directly under the root has depth 0 and is not the root.)
\<close>

theorem Up_Depth_plus_one_reaches_root:
  "built p \<Longrightarrow>
     (Up ^^ Suc (nat (Depth p))) p = NewPath \<and> Up ((Up ^^ Suc (nat (Depth p))) p) = NewPath"
  by (simp only: Up_Depth_Suc Up_root)

theorem Up_Depth_plus_one_reaches_root_witness:
  "built ''/a/b[3]'' \<and> Depth ''/a/b[3]'' = 2 \<and>
   (Up ^^ Suc (nat (Depth ''/a/b[3]''))) ''/a/b[3]'' = NewPath \<and>
   Up ((Up ^^ Suc (nat (Depth ''/a/b[3]''))) ''/a/b[3]'') = NewPath"
proof -
  have "built ''/a''" by (rule built_field[OF built_root build_a_b_3(1)])
  then have "built ''/a/b''" by (rule built_field[OF _ build_a_b_3(2)])
  then have "built (DownIndex ''/a/b'' 3)" by (rule built_index)
  then have b: "built ''/a/b[3]''" by (simp only: build_a_b_3(3))
  have d: "Depth ''/a/b[3]'' = 2" by code_simp
  show ?thesis using b d Up_Depth_plus_one_reaches_root[OF b] by blast
qed

text \<open>
  C4, as stated, fails at the empty path, the zero value of the type \<open>Path\<close> (the
  tests of the assertion layer start from \<open>&Is{}\<close>, whose cursor is this path, and call
  \<open>WithField\<close> on it): \<open>DownField\<close> treats the empty path like the root and returns
  \<open>/a\<close>, whose \<open>Up\<close> is the root and not the empty path.
\<close>

theorem Down_then_Up_empty_path_counterexample:
  "isValidFieldName ''a'' \<and> DownField [] ''a'' = Inr ''/a'' \<and> \<not> IsEqual (Up ''/a'') []"
  by code_simp

text \<open>
  C4, as amended. Descending and then ascending comes back: for every non-empty path
  \<open>p\<close> (every path built from the root is one, \<open>built_not_Nil\<close>) and every field name
  \<open>n\<close> without separator and brackets, \<open>DownField p n\<close> succeeds with a path whose \<open>Up\<close>
  is equal to \<open>p\<close>, in particular for the root; for every path \<open>p\<close>, empty or not, and
  every integer \<open>i\<close>, \<open>Up\<close> of \<open>DownIndex p i\<close> is equal to \<open>p\<close>, so that \<open>Up\<close> takes off
  the trailing index marker and nothing else; and \<open>Up\<close> of the root is the root.
\<close>

theorem Down_then_Up_round_trip:
  "(p \<noteq> [] \<longrightarrow> isValidFieldName n \<longrightarrow> (\<exists>q. DownField p n = Inr q \<and> IsEqual (Up q) p)) \<and>
   (isValidFieldName n \<longrightarrow> (\<exists>q. DownField NewPath n = Inr q \<and> IsEqual (Up q) NewPath)) \<and>
   IsEqual (Up (DownIndex p i)) p \<and>
   DownIndex p i = p @ index_marker i \<and>
   Up NewPath = NewPath"
proof -
  have f: "\<exists>q. DownField r n = Inr q \<and> IsEqual (Up q) r"
    if ne: "r \<noteq> []" and v: "isValidFieldName n" for r
  proof -
    have "DownField r n =
            Inr (if IsAbsolute r \<and> IsRoot r then r @ n else r @ PathSeparator @ n)"
      using v by (simp add: DownField_def)
    then obtain q where q: "DownField r n = Inr q" by blast
    then show ?thesis using Up_DownField[OF v ne q] by (simp add: IsEqual_def)
  qed
  have "NewPath \<noteq> []" by (simp add: NewPath_def PathSeparator_def)
  then show ?thesis using f[of p] f[of NewPath] Up_DownIndex[of p i] DownIndex_marker[of p i]
    by (simp add: Up_root IsEqual_def)
qed

theorem Down_then_Up_round_trip_witness:
  "''/a[0]'' \<noteq> [] \<and> isValidFieldName ''b'' \<and>
   DownField ''/a[0]'' ''b'' = Inr ''/a[0]/b'' \<and> IsEqual (Up ''/a[0]/b'') ''/a[0]'' \<and>
   DownField NewPath ''b'' = Inr ''/b'' \<and> IsEqual (Up ''/b'') NewPath \<and>
   DownIndex ''/a[0]'' 7 = ''/a[0][7]'' \<and> IsEqual (Up ''/a[0][7]'') ''/a[0]''"
proof -
  have v: "isValidFieldName ''b''" by code_simp
  have d: "DownField ''/a[0]'' ''b'' = Inr ''/a[0]/b''" "DownField NewPath ''b'' = Inr ''/b''"
    "DownIndex ''/a[0]'' 7 = ''/a[0][7]''" by code_simp+
  show ?thesis using v d Down_then_Up_round_trip[of "''/a[0]''" "''b''" 7] by auto
qed

lemma DownField_valid:
  "isValidFieldName n \<Longrightarrow>
     DownField p n = Inr (if IsRoot p then p @ n else p @ PathSeparator @ n)"
  by (auto simp: DownField_def IsRoot_def IsAbsolute_def HasPrefix_def PathSeparator_def)

text \<open>
  C5. \<open>Depth\<close> is 0 for the root and 0 for a single field directly under the root
  (\<open>DownField\<close> on the root, or on the empty path); a further field, on a path that is
  neither the root nor empty, and an index marker on any path each add exactly 1;
  for every path, \<open>Depth\<close> is the number of separators, minus one when the path is
  absolute, plus the number of opening brackets; and the path \<open>/a[0][1][2]\<close> has
  depth 3.
\<close>

theorem Depth_counts_levels_and_markers:
  "Depth NewPath = 0 \<and>
   (isValidFieldName n \<longrightarrow> (\<exists>q. DownField NewPath n = Inr q \<and> Depth q = 0)) \<and>
   (isValidFieldName n \<longrightarrow> (\<exists>q. DownField [] n = Inr q \<and> Depth q = 0)) \<and>
   (isValidFieldName n \<longrightarrow> p \<noteq> [] \<longrightarrow> \<not> IsRoot p \<longrightarrow>
      (\<exists>q. DownField p n = Inr q \<and> Depth q = Depth p + 1)) \<and>
   Depth (DownIndex p i) = Depth p + 1 \<and>
   Depth p = Count p sep - (if IsAbsolute p then 1 else 0) + Count p lbracket \<and>
   Depth ''/a[0][1][2]'' = 3"
proof -
  have r: "IsRoot NewPath" by (simp add: IsRoot_def NewPath_def)
  have e: "\<not> IsRoot []" "[] @ PathSeparator @ n = NewPath @ n"
    by (simp_all add: IsRoot_def NewPath_def PathSeparator_def)
  have 1: "\<exists>q. DownField NewPath n = Inr q \<and> Depth q = 0" if v: "isValidFieldName n"
    using DownField_valid[OF v, of NewPath] Depth_DownField_root[OF v] r by simp
  have 2: "\<exists>q. DownField [] n = Inr q \<and> Depth q = 0" if v: "isValidFieldName n"
    using DownField_valid[OF v, of "[]"] Depth_DownField_root[OF v] e by simp
  have 3: "\<exists>q. DownField p n = Inr q \<and> Depth q = Depth p + 1"
    if v: "isValidFieldName n" and ne: "p \<noteq> []" and nr: "\<not> IsRoot p"
    using DownField_valid[OF v, of p] Depth_DownField_nonroot[OF v ne] nr by simp
  have 4: "Depth ''/a[0][1][2]'' = 3" by code_simp
  show ?thesis using 1 2 3 4 Depth_root Depth_DownIndex[of p i] Depth_alt[of p] by blast
qed

theorem Depth_counts_levels_and_markers_witness:
  "isValidFieldName ''c'' \<and> ''/a/b[3]'' \<noteq> [] \<and> \<not> IsRoot ''/a/b[3]'' \<and> IsAbsolute ''/a/b[3]'' \<and>
   Depth ''/a/b[3]'' = 2 \<and>
   DownField NewPath ''c'' = Inr ''/c'' \<and> Depth ''/c'' = 0 \<and>
   DownField ''/a/b[3]'' ''c'' = Inr ''/a/b[3]/c'' \<and> Depth ''/a/b[3]/c'' = 3 \<and>
   Depth (DownIndex ''/a/b[3]'' 5) = 3 \<and>
   Count ''/a/b[3]'' sep - 1 + Count ''/a/b[3]'' lbracket = 2"
proof -
  have h: "isValidFieldName ''c''" "''/a/b[3]'' \<noteq> []" "\<not> IsRoot ''/a/b[3]''" "IsAbsolute ''/a/b[3]''"
    by code_simp+
  have d: "Depth ''/a/b[3]'' = 2" "DownField NewPath ''c'' = Inr ''/c''"
    "DownField ''/a/b[3]'' ''c'' = Inr ''/a/b[3]/c''" by code_simp+
  show ?thesis
    using h d Depth_counts_levels_and_markers[of "''c''" "''/a/b[3]''" 5] by auto
qed

text \<open>
  C8. \<open>DownField p name\<close> panics if and only if \<open>name\<close> contains the separator, an
  opening bracket or a closing bracket. For every other name, the empty one included,
  it returns the path \<open>p\<close> followed by \<open>name\<close> (at the root) or by the separator and
  \<open>name\<close> (elsewhere), whose \<open>FieldName\<close> is \<open>name\<close>. The receiver is a value: the
  result is a new string.
\<close>

theorem DownField_panics_iff_reserved_character:
  "((\<exists>e. DownField p name = Inl e) \<longleftrightarrow>
      (sep \<in> set name \<or> lbracket \<in> set name \<or> rbracket \<in> set name)) \<and>
   (sep \<in> set name \<or> lbracket \<in> set name \<or> rbracket \<in> set name \<longrightarrow>
      DownField p name = Inl (InvalidFieldName name)) \<and>
   (sep \<notin> set name \<and> lbracket \<notin> set name \<and> rbracket \<notin> set name \<longrightarrow>
      (\<exists>q. DownField p name = Inr q \<and>
           q = (if IsRoot p then p @ name else p @ PathSeparator @ name) \<and>
           FieldName q = name)) \<and>
   (\<exists>q. DownField p [] = Inr q)"
proof -
  have a: "DownField p name = Inl (InvalidFieldName name)" if "\<not> isValidFieldName name"
    using that by (simp add: DownField_def)
  have b: "\<exists>q. DownField p name = Inr q \<and>
           q = (if IsRoot p then p @ name else p @ PathSeparator @ name) \<and> FieldName q = name"
    if v: "isValidFieldName name"
    using DownField_valid[OF v, of p] FieldName_DownField[of p name] by simp
  have c: "isValidFieldName []" by (simp add: isValidFieldName_iff)
  have d: "\<exists>q. DownField p [] = Inr q" using DownField_valid[OF c, of p] by blast
  show ?thesis
  proof (cases "isValidFieldName name")
    case True
    with b[OF True] d show ?thesis by (auto simp: isValidFieldName_iff)
  next
    case False
    with a[OF False] d show ?thesis by (auto simp: isValidFieldName_iff)
  qed
qed

theorem DownField_panics_iff_reserved_character_witness:
  "sep \<in> set ''a/b'' \<and> DownField ''/x'' ''a/b'' = Inl (InvalidFieldName ''a/b'') \<and>
   rbracket \<in> set ''a]'' \<and> DownField ''/x'' ''a]'' = Inl (InvalidFieldName ''a]'') \<and>
   sep \<notin> set ''ab'' \<and> lbracket \<notin> set ''ab'' \<and> rbracket \<notin> set ''ab'' \<and>
   DownField ''/x'' ''ab'' = Inr ''/x/ab'' \<and> FieldName ''/x/ab'' = ''ab'' \<and>
   (\<exists>q. DownField ''/x'' [] = Inr q)"
proof -
  have h1: "sep \<in> set ''a/b''" by (simp add: sep_def)
  have h2: "rbracket \<in> set ''a]''" by (simp add: rbracket_def)
  have h3: "sep \<notin> set ''ab''" "lbracket \<notin> set ''ab''" "rbracket \<notin> set ''ab''"
    by (simp_all add: sep_def lbracket_def rbracket_def)
  have r: "(if IsRoot ''/x'' then ''/x'' @ ''ab'' else ''/x'' @ PathSeparator @ ''ab'') = ''/x/ab''"
    by code_simp
  have p1: "DownField ''/x'' ''a/b'' = Inl (InvalidFieldName ''a/b'')"
    using h1 DownField_panics_iff_reserved_character[of "''/x''" "''a/b''"] by blast
  have p2: "DownField ''/x'' ''a]'' = Inl (InvalidFieldName ''a]'')"
    using h2 DownField_panics_iff_reserved_character[of "''/x''" "''a]''"] by blast
  obtain q where q: "DownField ''/x'' ''ab'' = Inr q"
      "q = (if IsRoot ''/x'' then ''/x'' @ ''ab'' else ''/x'' @ PathSeparator @ ''ab'')"
      "FieldName q = ''ab''"
    using h3 DownField_panics_iff_reserved_character[of "''/x''" "''ab''"] by blast
  have q': "q = ''/x/ab''" using q(2) r by simp
  have p4: "\<exists>q. DownField ''/x'' [] = Inr q"
    using DownField_panics_iff_reserved_character[of "''/x''" "''ab''"] by blast
  show ?thesis using h1 h2 h3 p1 p2 q(1,3) p4 unfolding q' by blast
qed

section \<open>Error values: ifaces and issers/validate_error.go\<close>

text \<open>
  A value of the interface \<open>ifaces.ValidateError\<close>: nil, or a pointer to a
  \<open>SimpleValidateError\<close> or to a \<open>ShouldBeMsg\<close>, as the constructors of the package return
  them. The arguments of a \<open>ShouldBeMsg\<close> are those of the integer checks.
\<close>

datatype Arg = IntArg int

datatype ValidateError =
    NilValidateError
  | SimpleValidateError string
  | ShouldBeMsg (MsgFmt: string) (Args: "Arg list")

text \<open>
  The method \<open>v.IsEqual(e)\<close>. A method call on a nil interface panics. Both
  implementations test the argument with a comma-ok type assertion, so an argument
  that is nil, or of the other kind, gives false.
\<close>

definition IsEqual_error :: "ValidateError \<Rightarrow> ValidateError \<Rightarrow> error + bool" where
  "IsEqual_error v e =
     (case v of
        NilValidateError \<Rightarrow> Inl NilPointerDereference
      | SimpleValidateError s \<Rightarrow>
          Inr (case e of SimpleValidateError t \<Rightarrow> s = t | _ \<Rightarrow> False)
      | ShouldBeMsg f a \<Rightarrow>
          Inr (case e of ShouldBeMsg g b \<Rightarrow> f = g \<and> a = b | _ \<Rightarrow> False))"

section \<open>The error tree (tree.ErrorNode)\<close>

text \<open>
  A node owns its children, so a tree is a value. A Go map is an association list
  with distinct keys, \<open>None\<close> for the nil map, and \<open>errs\<close> is \<open>None\<close> for the nil slice.
  The \<open>parent\<close> pointer is the position of the node in the tree and is not stored.
  Where the code ranges over a map, the model ranges over the list in its order.
\<close>

datatype ErrorNode = ErrorNode
  (NamedChildren: "(string \<times> ErrorNode) list option")
  (NumberedChildren: "(int \<times> ErrorNode) list option")
  (errs: "ValidateError list option")

definition NewErrorNode :: ErrorNode where
  "NewErrorNode = ErrorNode None None None"

text \<open>\<open>m[k]\<close> with the comma-ok form; reading a nil map finds nothing.\<close>

definition map_get :: "('k \<times> 'v) list option \<Rightarrow> 'k \<Rightarrow> 'v option" where
  "map_get m k = (case m of None \<Rightarrow> None | Some kvs \<Rightarrow> map_of kvs k)"

text \<open>\<open>len\<close> and \<open>range\<close> of a slice that may be nil.\<close>

definition slice_elems :: "'a list option \<Rightarrow> 'a list" where
  "slice_elems s = (case s of None \<Rightarrow> [] | Some l \<Rightarrow> l)"

definition Errors :: "ErrorNode \<Rightarrow> ValidateError list option" where
  "Errors n = errs n"

fun HasErrors_node :: "ErrorNode \<Rightarrow> bool" where
  "HasErrors_node (ErrorNode nc xc es) =
     ((es \<noteq> None \<and> length (slice_elems es) \<noteq> 0)
      \<or> (case nc of None \<Rightarrow> False | Some cs \<Rightarrow> list_ex (\<lambda>(k, c). HasErrors_node c) cs)
      \<or> (case xc of None \<Rightarrow> False | Some cs \<Rightarrow> list_ex (\<lambda>(k, c). HasErrors_node c) cs))"

text \<open>The number of error values stored in all the nodes of a tree.\<close>

fun total_errors :: "ErrorNode \<Rightarrow> nat" where
  "total_errors (ErrorNode nc xc es) =
     length (slice_elems es)
     + (case nc of None \<Rightarrow> 0 | Some cs \<Rightarrow> sum_list (map (\<lambda>(k, c). total_errors c) cs))
     + (case xc of None \<Rightarrow> 0 | Some cs \<Rightarrow> sum_list (map (\<lambda>(k, c). total_errors c) cs))"

subsection \<open>IsEqual\<close>

text \<open>
  The inner loop over the list of unvisited errors: every element equal to \<open>e\<close> is
  removed. The argument of \<open>IsEqual\<close> is \<open>i.Value.(ifaces.ValidateError)\<close>, a type
  assertion without comma-ok, which panics on a nil element.
\<close>

fun remove_visited :: "ValidateError \<Rightarrow> ValidateError list \<Rightarrow> error + ValidateError list" where
  "remove_visited e [] = Inr []"
| "remove_visited e (x # xs) =
     (if x = NilValidateError then Inl InterfaceConversion
      else (case IsEqual_error e x of
              Inl p \<Rightarrow> Inl p
            | Inr True \<Rightarrow> remove_visited e xs
            | Inr False \<Rightarrow>
                (case remove_visited e xs of Inl p \<Rightarrow> Inl p | Inr r \<Rightarrow> Inr (x # r))))"

text \<open>The outer loop over the receiver's errors.\<close>

fun visit_errors :: "ValidateError list \<Rightarrow> ValidateError list \<Rightarrow> error + ValidateError list" where
  "visit_errors [] unVisitedErrors = Inr unVisitedErrors"
| "visit_errors (e # es) unVisitedErrors =
     (case remove_visited e unVisitedErrors of
        Inl p \<Rightarrow> Inl p
      | Inr r \<Rightarrow> visit_errors es r)"

text \<open>The comparison of the local errors; \<open>PushFront\<close> reverses the other node's list.\<close>

definition local_errors_equal ::
  "ValidateError list option \<Rightarrow> ValidateError list option \<Rightarrow> error + bool" where
  "local_errors_equal nerrs oerrs =
     (if (nerrs \<noteq> None \<and> oerrs = None) \<or> (nerrs = None \<and> oerrs \<noteq> None) then Inr False
      else if nerrs \<noteq> None then
        (if length (slice_elems nerrs) \<noteq> length (slice_elems oerrs) then Inr False
         else (case visit_errors (slice_elems nerrs) (rev (slice_elems oerrs)) of
                 Inl p \<Rightarrow> Inl p
               | Inr unVisitedErrors \<Rightarrow> Inr (length unVisitedErrors = 0)))
      else Inr True)"

text \<open>A loop that returns false as soon as its body does.\<close>

fun for_keys :: "'k list \<Rightarrow> ('k \<Rightarrow> error + bool) \<Rightarrow> error + bool" where
  "for_keys [] body = Inr True"
| "for_keys (k # ks) body =
     (case body k of
        Inl p \<Rightarrow> Inl p
      | Inr False \<Rightarrow> Inr False
      | Inr True \<Rightarrow> for_keys ks body)"

lemma for_keys_cong [fundef_cong]:
  "ks = ks' \<Longrightarrow> (\<And>k. k \<in> set ks' \<Longrightarrow> body k = body' k) \<Longrightarrow> for_keys ks body = for_keys ks' body'"
  by (induction ks arbitrary: ks') (auto split: sum.splits bool.splits)

lemma size_map_of:
  "map_of kvs k = Some (c :: ErrorNode) \<Longrightarrow> size c < Suc (size_list (size_prod (\<lambda>x. 0) size) kvs)"
  by (induction kvs) (auto split: if_splits)

text \<open>
  \<open>IsEqual\<close>. \<open>nn[i].IsEqual(oo[i])\<close> with a missing key on either side calls the method
  with a nil receiver or a nil argument, and its first statement dereferences both.
\<close>

function IsEqual_node :: "ErrorNode \<Rightarrow> ErrorNode \<Rightarrow> error + bool" where
  "IsEqual_node n other =
     (case local_errors_equal (errs n) (errs other) of
        Inl p \<Rightarrow> Inl p
      | Inr False \<Rightarrow> Inr False
      | Inr True \<Rightarrow>
         (case
            (case NumberedChildren n of
               None \<Rightarrow> (if NumberedChildren other \<noteq> None then Inr False else Inr True)
             | Some nn \<Rightarrow>
                (case NumberedChildren other of
                   None \<Rightarrow> Inr False
                 | Some oo \<Rightarrow>
                    if length nn \<noteq> length oo then Inr False
                    else for_keys (map int [0..<length nn])
                           (\<lambda>i. case map_of nn i of
                                  None \<Rightarrow> Inl NilPointerDereference
                                | Some a \<Rightarrow>
                                   (case map_of oo i of
                                      None \<Rightarrow> Inl NilPointerDereference
                                    | Some b \<Rightarrow> IsEqual_node a b))))
          of
            Inl p \<Rightarrow> Inl p
          | Inr False \<Rightarrow> Inr False
          | Inr True \<Rightarrow>
             (case NamedChildren n of
                None \<Rightarrow> (if NamedChildren other \<noteq> None then Inr False else Inr True)
              | Some nn \<Rightarrow>
                 (case NamedChildren other of
                    None \<Rightarrow> Inr False
                  | Some oo \<Rightarrow>
                     if length nn \<noteq> length oo then Inr False
                     else for_keys (map fst nn)
                            (\<lambda>i. case map_of nn i of
                                   None \<Rightarrow> Inl NilPointerDereference
                                 | Some a \<Rightarrow>
                                    (case map_of oo i of
                                       None \<Rightarrow> Inl NilPointerDereference
                                     | Some b \<Rightarrow> IsEqual_node a b))))))"
  by pat_completeness auto
termination
proof (relation "measure (\<lambda>(n, other). size n)")
  show "wf (measure (\<lambda>(n, other). size n))" by simp
next
  fix n other :: ErrorNode and x2 x2a nn oo x a b
  assume "NumberedChildren n = Some nn" "map_of nn x = Some a"
  then show "((a, b), n, other) \<in> measure (\<lambda>(n, other). size n)"
    using size_map_of[of nn x a] by (cases n) auto
next
  fix n other :: ErrorNode and x2 x2a x2b nn oo x a b
  assume "NamedChildren n = Some nn" "map_of nn x = Some a"
  then show "((a, b), n, other) \<in> measure (\<lambda>(n, other). size n)"
    using size_map_of[of nn x a] by (cases n) auto
qed

declare IsEqual_node.simps [simp del]

subsection \<open>Reading: traverseTo, HasErrorAt, IsErrorAt\<close>

text \<open>
  The closures of \<open>traverseTo\<close> capture the variable \<open>current\<close>, a pointer into the
  tree; they only read, so the state of the closures is the node that \<open>current\<close>
  points to.
\<close>

definition traverse_field :: "string \<Rightarrow> ErrorNode \<Rightarrow> bool \<times> ErrorNode" where
  "traverse_field fieldName current =
     (case map_get (NamedChildren current) fieldName of
        None \<Rightarrow> (False, current)
      | Some c \<Rightarrow> (True, c))"

definition traverse_index :: "int \<Rightarrow> ErrorNode \<Rightarrow> bool \<times> ErrorNode" where
  "traverse_index index current =
     (case map_get (NumberedChildren current) index of
        None \<Rightarrow> (False, current)
      | Some c \<Rightarrow> (True, c))"

definition traverseTo :: "ErrorNode \<Rightarrow> Path \<Rightarrow> error + ErrorNode option" where
  "traverseTo n path =
     (case EachComponent path traverse_field traverse_index n of
        (Inl p, current) \<Rightarrow> Inl p
      | (Inr True, current) \<Rightarrow> Inr (Some current)
      | (Inr False, current) \<Rightarrow> Inr None)"

definition HasErrorAt :: "ErrorNode \<Rightarrow> Path \<Rightarrow> error + bool" where
  "HasErrorAt n path =
     (case traverseTo n path of
        Inl p \<Rightarrow> Inl p
      | Inr None \<Rightarrow> Inr False
      | Inr (Some current) \<Rightarrow> Inr (length (slice_elems (errs current)) \<noteq> 0))"

fun any_equal :: "ValidateError list \<Rightarrow> ValidateError \<Rightarrow> error + bool" where
  "any_equal [] validateError = Inr False"
| "any_equal (e # es) validateError =
     (case IsEqual_error e validateError of
        Inl p \<Rightarrow> Inl p
      | Inr True \<Rightarrow> Inr True
      | Inr False \<Rightarrow> any_equal es validateError)"

definition IsErrorAt :: "ErrorNode \<Rightarrow> Path \<Rightarrow> ValidateError \<Rightarrow> error + bool" where
  "IsErrorAt n path validateError =
     (case traverseTo n path of
        Inl p \<Rightarrow> Inl p
      | Inr None \<Rightarrow> Inr False
      | Inr (Some current) \<Rightarrow> any_equal (slice_elems (errs current)) validateError)"

subsection \<open>Writing: DownField, DownIndex, Add\<close>

text \<open>
  \<open>n.DownField(name)\<close> changes the receiver (it makes the map and the child when they
  are missing) and returns a pointer to the child. \<open>DownField_node\<close> is the receiver after
  the call; the pointer returned is the child \<open>name\<close> of the receiver.
\<close>

definition map_ensure :: "('k \<times> ErrorNode) list option \<Rightarrow> 'k \<Rightarrow> ('k \<times> ErrorNode) list option" where
  "map_ensure m k =
     (let kvs = (case m of None \<Rightarrow> [] | Some kvs \<Rightarrow> kvs)
      in case map_of kvs k of
           None \<Rightarrow> Some (kvs @ [(k, NewErrorNode)])
         | Some e \<Rightarrow> Some kvs)"

definition DownField_node :: "ErrorNode \<Rightarrow> string \<Rightarrow> ErrorNode" where
  "DownField_node n name =
     ErrorNode (map_ensure (NamedChildren n) name) (NumberedChildren n) (errs n)"

definition DownIndex_node :: "ErrorNode \<Rightarrow> int \<Rightarrow> ErrorNode" where
  "DownIndex_node n index =
     ErrorNode (NamedChildren n) (map_ensure (NumberedChildren n) index) (errs n)"

definition Add :: "ErrorNode \<Rightarrow> ValidateError \<Rightarrow> ErrorNode" where
  "Add n e = ErrorNode (NamedChildren n) (NumberedChildren n) (Some (slice_elems (errs n) @ [e]))"

text \<open>
  A pointer to a node of a tree is the tree and the components that lead from its root
  to the node. \<open>node_at\<close> dereferences such a pointer, \<open>update_at\<close> runs a method that
  changes its receiver on the node pointed to.
\<close>

fun node_at :: "ErrorNode \<Rightarrow> component list \<Rightarrow> ErrorNode option" where
  "node_at n [] = Some n"
| "node_at n (FieldComponent name # cs) =
     (case map_get (NamedChildren n) name of None \<Rightarrow> None | Some c \<Rightarrow> node_at c cs)"
| "node_at n (IndexComponent index # cs) =
     (case map_get (NumberedChildren n) index of None \<Rightarrow> None | Some c \<Rightarrow> node_at c cs)"

fun update_entry :: "'k \<Rightarrow> ('v \<Rightarrow> 'v) \<Rightarrow> ('k \<times> 'v) list \<Rightarrow> ('k \<times> 'v) list" where
  "update_entry k f [] = []"
| "update_entry k f ((k', v) # kvs) =
     (if k' = k then (k', f v) # kvs else (k', v) # update_entry k f kvs)"

fun update_at :: "ErrorNode \<Rightarrow> component list \<Rightarrow> (ErrorNode \<Rightarrow> ErrorNode) \<Rightarrow> ErrorNode" where
  "update_at n [] f = f n"
| "update_at n (FieldComponent name # cs) f =
     ErrorNode (map_option (update_entry name (\<lambda>c. update_at c cs f)) (NamedChildren n))
       (NumberedChildren n) (errs n)"
| "update_at n (IndexComponent index # cs) f =
     ErrorNode (NamedChildren n)
       (map_option (update_entry index (\<lambda>c. update_at c cs f)) (NumberedChildren n)) (errs n)"

subsection \<open>What the comparison of the local errors computes\<close>

text \<open>The boolean of \<open>e.IsEqual(x)\<close> for a receiver that is not nil.\<close>

definition equal_content :: "ValidateError \<Rightarrow> ValidateError \<Rightarrow> bool" where
  "equal_content v e = (IsEqual_error v e = Inr True)"

lemma IsEqual_error_not_nil:
  "v \<noteq> NilValidateError \<Longrightarrow> IsEqual_error v e = Inr (equal_content v e)"
  by (cases v) (simp_all add: equal_content_def IsEqual_error_def)

lemma remove_visited_filter:
  "e \<noteq> NilValidateError \<Longrightarrow> NilValidateError \<notin> set xs \<Longrightarrow>
     remove_visited e xs = Inr (filter (\<lambda>x. \<not> equal_content e x) xs)"
  by (induction xs) (auto simp: IsEqual_error_not_nil)

lemma visit_errors_filter:
  "NilValidateError \<notin> set es \<Longrightarrow> NilValidateError \<notin> set xs \<Longrightarrow>
     visit_errors es xs = Inr (filter (\<lambda>x. \<forall>e \<in> set es. \<not> equal_content e x) xs)"
proof (induction es arbitrary: xs)
  case Nil
  then show ?case by simp
next
  case (Cons e es)
  have r: "remove_visited e xs = Inr (filter (\<lambda>x. \<not> equal_content e x) xs)"
    using Cons.prems by (intro remove_visited_filter) auto
  have n: "NilValidateError \<notin> set (filter (\<lambda>x. \<not> equal_content e x) xs)"
    using Cons.prems(2) by simp
  have "visit_errors es (filter (\<lambda>x. \<not> equal_content e x) xs)
          = Inr (filter (\<lambda>x. \<forall>e \<in> set es. \<not> equal_content e x) (filter (\<lambda>x. \<not> equal_content e x) xs))"
    using Cons.prems(1) by (intro Cons.IH[OF _ n]) simp
  then show ?case by (simp add: r conj_commute)
qed

text \<open>
  For two non-nil lists of non-nil errors, the local errors compare equal exactly
  when the lists have the same length and every error of the other node is equal to
  some error of the receiver: how often an error occurs is not compared.
\<close>

lemma local_errors_equal_what:
  assumes "NilValidateError \<notin> set nerrs" "NilValidateError \<notin> set oerrs"
  shows "local_errors_equal (Some nerrs) (Some oerrs) =
           Inr (length nerrs = length oerrs \<and> (\<forall>x \<in> set oerrs. \<exists>e \<in> set nerrs. equal_content e x))"
proof -
  have "visit_errors nerrs (rev oerrs)
          = Inr (filter (\<lambda>x. \<forall>e \<in> set nerrs. \<not> equal_content e x) (rev oerrs))"
    using assms by (intro visit_errors_filter) simp_all
  moreover have "(filter (\<lambda>x. \<forall>e \<in> set nerrs. \<not> equal_content e x) (rev oerrs) = [])
                   \<longleftrightarrow> (\<forall>x \<in> set oerrs. \<exists>e \<in> set nerrs. equal_content e x)"
    by (auto simp: filter_empty_conv)
  ultimately show ?thesis
    by (simp add: local_errors_equal_def slice_elems_def)
qed

section \<open>The claim about IsEqual of the error tree\<close>

text \<open>
  C1, at a failing input. With \<open>X\<close> and \<open>Y\<close> two simple errors of different text
  (\<open>X\<close> is equal to \<open>X\<close> and not to \<open>Y\<close>), a node whose local errors are \<open>[X, X, Y]\<close> and
  a node whose local errors are \<open>[X, Y, Y]\<close>, both without children: the lists have the
  same length, the first \<open>X\<close> removes the \<open>X\<close> of the other list, the second \<open>X\<close> removes
  nothing, \<open>Y\<close> removes both \<open>Y\<close>, nothing is left unvisited, and \<open>IsEqual\<close> returns true
  where the claim says the nodes are not equal.
\<close>

theorem IsEqual_node_duplicates:
  "IsEqual_error (SimpleValidateError ''X'') (SimpleValidateError ''X'') = Inr True \<and>
   IsEqual_error (SimpleValidateError ''X'') (SimpleValidateError ''Y'') = Inr False \<and>
   IsEqual_error (SimpleValidateError ''Y'') (SimpleValidateError ''X'') = Inr False \<and>
   IsEqual_node
     (ErrorNode None None
        (Some [SimpleValidateError ''X'', SimpleValidateError ''X'', SimpleValidateError ''Y'']))
     (ErrorNode None None
        (Some [SimpleValidateError ''X'', SimpleValidateError ''Y'', SimpleValidateError ''Y'']))
   = Inr True"
  by code_simp

section \<open>Resolving a path against the tree\<close>

subsection \<open>The paths that can be constructed\<close>

text \<open>
  The paths that a client can construct: \<open>NewPath()\<close> or the zero value of the type (the
  empty string, the cursor of the \<open>&Is{}\<close> of the tests), followed by calls of
  \<open>DownField\<close> and \<open>DownIndex\<close>.
\<close>

inductive constructed :: "Path \<Rightarrow> bool" where
  constructed_root: "constructed NewPath"
| constructed_empty: "constructed []"
| constructed_field: "constructed p \<Longrightarrow> DownField p n = Inr q \<Longrightarrow> constructed q"
| constructed_index: "constructed p \<Longrightarrow> constructed (DownIndex p i)"

lemma built_constructed: "built p \<Longrightarrow> constructed p"
  by (induction rule: built.induct) (auto intro: constructed.intros)

lemma collect_parts_root: "collect_parts NewPath = []"
  by (subst collect_parts.simps) (simp add: IsRoot_def NewPath_def)

lemma collect_parts_step:
  "\<not> IsRoot q \<Longrightarrow> q \<noteq> [] \<Longrightarrow> collect_parts q = q # collect_parts (Up q)"
  by (subst collect_parts.simps) simp

lemma collect_parts_empty: "collect_parts [] = []"
  by (subst collect_parts.simps) simp

lemma DownField_result_cases:
  assumes "DownField p n = Inr q"
  shows "q = NewPath \<or>
         (\<not> IsRoot q \<and> q \<noteq> [] \<and> \<not> IsArrayElement q \<and> Up q = (if p = [] then NewPath else p))"
proof -
  from DownField_Inr[OF assms]
  have v: "isValidFieldName n" and q: "q = (if IsRoot p then p @ n else p @ PathSeparator @ n)"
    by simp_all
  from v have s: "sep \<notin> set n" and l: "lbracket \<notin> set n" by (simp_all add: isValidFieldName_iff)
  have first: "sep # n = NewPath \<or>
         (\<not> IsRoot (sep # n) \<and> sep # n \<noteq> [] \<and> \<not> IsArrayElement (sep # n) \<and> Up (sep # n) = NewPath)"
  proof (cases "n = []")
    case True
    then show ?thesis by (simp add: NewPath_def PathSeparator_def)
  next
    case False
    then have "\<not> IsRoot (sep # n)" by (simp add: IsRoot_def PathSeparator_def)
    moreover have "\<not> IsArrayElement (sep # n)" using IsArrayElement_field[OF l s, of "[]"] by simp
    moreover have "Up (sep # n) = NewPath"
      using Up_DownField_root[OF v] by (simp add: NewPath_def PathSeparator_def)
    ultimately show ?thesis by simp
  qed
  show ?thesis
  proof (cases "p = []")
    case True
    then have "q = sep # n" using q by (simp add: IsRoot_def PathSeparator_def)
    then show ?thesis using first True by simp
  next
    case ne: False
    show ?thesis
    proof (cases "IsRoot p")
      case True
      then have "q = sep # n" "p = NewPath"
        using q by (simp_all add: IsRoot_def PathSeparator_def NewPath_def)
      then show ?thesis using first ne by auto
    next
      case False
      then have qq: "q = p @ sep # n" using q by (simp add: PathSeparator_def)
      have u: "Up q = p" by (rule Up_DownField[OF v ne assms])
      have "\<not> IsRoot q" using qq ne by (cases p) (auto simp: IsRoot_def PathSeparator_def)
      moreover have "\<not> IsArrayElement q" unfolding qq by (rule IsArrayElement_field[OF l s])
      ultimately show ?thesis using qq u ne by simp
    qed
  qed
qed

lemma DownIndex_not_Nil: "DownIndex p i \<noteq> []"
  by (simp add: DownIndex_def)

lemma LastIndex_snoc: "LastIndex (s @ [c]) c = int (length s)"
  using LastIndex_append[of c "[]" s] by simp

lemma length_last_Split: "length (last (Split p c)) \<le> length p"
proof (induction p)
  case Nil
  show ?case by simp
next
  case (Cons x p)
  have ne: "Split p c \<noteq> []" by (rule Split_not_Nil)
  then obtain y ys where sp: "Split p c = y # ys" by (cases "Split p c") auto
  show ?case using Cons sp by (cases ys) auto
qed

lemma Index_DownIndex_succeeds: "\<exists>v. Index (DownIndex p i) = Inr v"
proof -
  let ?lp = "last (Split p sep)"
  let ?q = "DownIndex p i"
  define a where "a = int (length ?lp) + 2"
  define b where "b = int (length ?lp) + int (length (show_int i)) + 2"
  have lastPart: "last (Split ?q sep) = ?lp @ index_marker i" by (rule last_Split_DownIndex)
  have st: "LastIndex (?lp @ index_marker i) lbracket + 2 = a"
    unfolding a_def by (simp only: LastIndex_marker)
  have "?lp @ index_marker i = (?lp @ lbracket # show_int i) @ [rbracket]"
    by (simp add: index_marker_def)
  then have en: "LastIndex (?lp @ index_marker i) rbracket + 1 = b"
    using LastIndex_snoc[of "?lp @ lbracket # show_int i" rbracket] by (simp add: b_def)
  have len: "length ?q = length p + length (show_int i) + 2"
    by (simp add: DownIndex_marker index_marker_def)
  have le: "length ?lp \<le> length p" by (rule length_last_Split)
  have "0 \<le> a \<and> a \<le> b \<and> b \<le> int (length ?q)"
    using len le by (simp add: a_def b_def)
  then obtain t where t: "substr ?q a b = Inr t" by (simp add: substr_def)
  have "Index ?q = (case substr ?q a b of Inl e \<Rightarrow> Inl e | Inr indexStr \<Rightarrow> Inr (Atoi indexStr))"
    by (simp only: Index_def IsArrayElement_DownIndex Let_def lastPart st en not_True_eq_False if_False)
  then show ?thesis by (simp add: t)
qed

subsection \<open>Where Index is right\<close>

lemma digit_val_digit_char: "d < 10 \<Longrightarrow> digit_val (digit_char d) = Some d"
proof -
  have "\<forall>d \<in> set [0..<10]. digit_val (digit_char d) = Some d" by code_simp
  then show "d < 10 \<Longrightarrow> digit_val (digit_char d) = Some d" by simp
qed

lemma parse_digits_append:
  "parse_digits (xs @ ys) acc =
     (case parse_digits xs acc of None \<Rightarrow> None | Some a \<Rightarrow> parse_digits ys a)"
  by (induction xs arbitrary: acc) (auto split: option.splits)

lemma parse_digits_show_nat: "parse_digits (show_nat n) 0 = Some n"
proof (induction n rule: show_nat.induct)
  case (1 n)
  show ?case
  proof (cases "n < 10")
    case True
    then show ?thesis by (subst show_nat.simps) (simp add: digit_val_digit_char)
  next
    case False
    have d: "digit_val (digit_char (n mod 10)) = Some (n mod 10)"
      by (rule digit_val_digit_char) simp
    have "parse_digits (show_nat (n div 10) @ [digit_char (n mod 10)]) 0 = Some (n div 10 * 10 + n mod 10)"
      using 1[OF False] d by (simp add: parse_digits_append)
    then show ?thesis using False by (subst show_nat.simps) simp
  qed
qed

lemma hd_show_nat_not_sign:
  "hd (show_nat n) \<noteq> CHR ''-'' \<and> hd (show_nat n) \<noteq> CHR ''+''"
proof -
  have "hd (show_nat n) \<in> set (show_nat n)" using show_nat_not_Nil by simp
  then have "hd (show_nat n) \<in> set digits" using show_nat_set by blast
  moreover have "CHR ''-'' \<notin> set digits" "CHR ''+'' \<notin> set digits" by (simp_all add: digits_def)
  ultimately show ?thesis by metis
qed

lemma Atoi_show_int:
  assumes "- (2 ^ 63) \<le> i" "i < 2 ^ 63"
  shows "Atoi (show_int i) = i"
proof (cases "i < 0")
  case True
  let ?m = "nat (- i)"
  have s: "show_int i = CHR ''-'' # show_nat ?m" using True by (simp add: show_int_def)
  have le: "\<not> int ?m > 2 ^ 63" using assms(1) True by simp
  show ?thesis
    using le True by (simp add: s Atoi_def Let_def show_nat_not_Nil parse_digits_show_nat)
next
  case False
  let ?m = "nat i"
  obtain c r where cr: "show_nat ?m = c # r" using show_nat_not_Nil[of ?m] by (cases "show_nat ?m") auto
  have c: "c \<noteq> CHR ''-''" "c \<noteq> CHR ''+''" using hd_show_nat_not_sign[of ?m] cr by simp_all
  have s: "show_int i = show_nat ?m" using False by (simp add: show_int_def)
  have p: "parse_digits (c # r) 0 = Some ?m" using parse_digits_show_nat[of ?m] cr by simp
  have lt: "\<not> int ?m \<ge> 2 ^ 63" using assms(2) False by simp
  have "Atoi (c # r) = i"
    unfolding Atoi_def Let_def using c p lt False by (simp del: parse_digits.simps)
  then show ?thesis by (simp add: s cr)
qed

text \<open>
  On a path with one separator, the leading one (the root, or a first field and its
  index markers), the last part starts at offset 1 and \<open>Index\<close> reads the index that
  \<open>DownIndex\<close> wrote, for every index that a Go \<open>int\<close> holds.
\<close>

lemma Index_DownIndex_first_level:
  assumes "IsAbsolute p" "Count p sep = 1" "- (2 ^ 63) \<le> i" "i < 2 ^ 63"
  shows "Index (DownIndex p i) = Inr i"
proof -
  obtain r where p: "p = sep # r" using assms(1) by (cases p) (auto simp: IsAbsolute_def HasPrefix_def)
  have "Count r sep = 0" using assms(2) p by (simp add: Count_def)
  then have nr: "sep \<notin> set r" by (auto simp: Count_def filter_empty_conv)
  let ?q = "DownIndex p i"
  have lp: "last (Split p sep) = r" using p nr by (simp add: Split_nosep)
  have lastPart: "last (Split ?q sep) = r @ index_marker i"
    using last_Split_DownIndex[of p i] lp by simp
  have st: "LastIndex (r @ index_marker i) lbracket + 2 = int (length r) + 2"
    by (simp only: LastIndex_marker)
  have "r @ index_marker i = (r @ lbracket # show_int i) @ [rbracket]"
    by (simp add: index_marker_def)
  then have en: "LastIndex (r @ index_marker i) rbracket + 1
                   = int (length r) + 2 + int (length (show_int i))"
    using LastIndex_snoc[of "r @ lbracket # show_int i" rbracket] by simp
  have q: "?q = (sep # r @ [lbracket]) @ show_int i @ [rbracket]"
    by (simp add: DownIndex_marker index_marker_def p)
  have "substr ?q (int (length r) + 2) (int (length r) + 2 + int (length (show_int i)))
          = Inr (take (length (show_int i)) (drop (length r + 2) ?q))"
    by (simp add: substr_def q nat_add_distrib)
  also have "drop (length r + 2) ?q = show_int i @ [rbracket]"
    unfolding q by simp
  finally have sub: "substr ?q (int (length r) + 2) (int (length r) + 2 + int (length (show_int i)))
          = Inr (show_int i)" by simp
  have "Index ?q = (case substr ?q (int (length r) + 2) (int (length r) + 2 + int (length (show_int i))) of
                      Inl e \<Rightarrow> Inl e | Inr indexStr \<Rightarrow> Inr (Atoi indexStr))"
    by (simp only: Index_def IsArrayElement_DownIndex Let_def lastPart st en not_True_eq_False if_False)
  then show ?thesis by (simp add: sub Atoi_show_int[OF assms(3,4)])
qed

subsection \<open>EachComponent does not panic on constructed paths\<close>

lemma constructed_Index_succeeds: "constructed p \<Longrightarrow> \<exists>v. Index p = Inr v"
proof (induction rule: constructed.induct)
  case constructed_root
  show ?case by (simp add: Index_def IsArrayElement_def IsRoot_def NewPath_def)
next
  case constructed_empty
  show ?case by (simp add: Index_def IsArrayElement_def IsRoot_def PathSeparator_def)
next
  case (constructed_field p n q)
  from DownField_result_cases[OF constructed_field.hyps(2)]
  have "\<not> IsArrayElement q"
    by (auto simp: IsArrayElement_def IsRoot_def NewPath_def)
  then show ?case by (simp add: Index_def)
next
  case (constructed_index p i)
  show ?case by (rule Index_DownIndex_succeeds)
qed

lemma constructed_collect_parts:
  "constructed p \<Longrightarrow> \<forall>part \<in> set (collect_parts p). constructed part"
proof (induction rule: constructed.induct)
  case constructed_root
  show ?case by (simp add: collect_parts_root)
next
  case constructed_empty
  show ?case by (simp add: collect_parts_empty)
next
  case (constructed_field p n q)
  have bq: "constructed q"
    by (rule constructed.constructed_field[OF constructed_field.hyps(1,2)])
  from DownField_result_cases[OF constructed_field.hyps(2)] show ?case
  proof
    assume "q = NewPath"
    then show ?thesis by (simp add: collect_parts_root)
  next
    assume a: "\<not> IsRoot q \<and> q \<noteq> [] \<and> \<not> IsArrayElement q \<and>
               Up q = (if p = [] then NewPath else p)"
    then have c: "collect_parts q = q # collect_parts (if p = [] then NewPath else p)"
      using collect_parts_step[of q] by simp
    show ?thesis
    proof (cases "p = []")
      case True
      then show ?thesis using c bq by (simp add: collect_parts_root)
    next
      case False
      then show ?thesis using c bq constructed_field.IH by simp
    qed
  qed
next
  case (constructed_index p i)
  have bq: "constructed (DownIndex p i)"
    by (rule constructed.constructed_index[OF constructed_index.hyps])
  have "collect_parts (DownIndex p i) = DownIndex p i # collect_parts p"
    using collect_parts_step[OF DownIndex_not_root DownIndex_not_Nil, of p i] by (simp add: Up_DownIndex)
  then show ?case using bq constructed_index.IH by simp
qed

text \<open>The component that the second loop of \<open>EachComponent\<close> reports for one part.\<close>

definition component_of :: "Path \<Rightarrow> component" where
  "component_of part =
     (if IsArrayElement part
      then IndexComponent (case Index part of Inl e \<Rightarrow> 0 | Inr i \<Rightarrow> i)
      else FieldComponent (FieldName part))"

lemma each_part_record:
  "\<forall>part \<in> set ps. \<exists>v. Index part = Inr v \<Longrightarrow>
     each_part ps record_field record_index s = (Inr True, s @ map component_of ps)"
proof (induction ps arbitrary: s)
  case Nil
  show ?case by simp
next
  case (Cons part ps)
  then obtain v where v: "Index part = Inr v" by auto
  have ih: "each_part ps record_field record_index s' = (Inr True, s' @ map component_of ps)" for s'
    using Cons by simp
  show ?case
  proof (cases "IsArrayElement part")
    case True
    have c: "component_of part = IndexComponent v" using True v by (simp add: component_of_def)
    have r: "record_index v s = (True, s @ [IndexComponent v])" by (simp add: record_index_def)
    show ?thesis using True by (simp add: v r c ih)
  next
    case False
    have c: "component_of part = FieldComponent (FieldName part)"
      using False by (simp add: component_of_def)
    have r: "record_field (FieldName part) s = (True, s @ [FieldComponent (FieldName part)])"
      by (simp add: record_field_def)
    show ?thesis using False by (simp add: r c ih)
  qed
qed

lemma each_part_traverse:
  "\<forall>part \<in> set ps. \<exists>v. Index part = Inr v \<Longrightarrow>
     fst (each_part ps traverse_field traverse_index current) =
       Inr (node_at current (map component_of ps) \<noteq> None) \<and>
     (\<forall>m. node_at current (map component_of ps) = Some m \<longrightarrow>
          snd (each_part ps traverse_field traverse_index current) = m)"
proof (induction ps arbitrary: current)
  case Nil
  show ?case by simp
next
  case (Cons part ps)
  then obtain v where v: "Index part = Inr v" by auto
  have ih: "fst (each_part ps traverse_field traverse_index c) =
       Inr (node_at c (map component_of ps) \<noteq> None) \<and>
     (\<forall>m. node_at c (map component_of ps) = Some m \<longrightarrow>
          snd (each_part ps traverse_field traverse_index c) = m)" for c
    using Cons by simp
  show ?case
  proof (cases "IsArrayElement part")
    case True
    have c: "component_of part = IndexComponent v" using True v by (simp add: component_of_def)
    show ?thesis
    proof (cases "map_get (NumberedChildren current) v")
      case None
      then have "traverse_index v current = (False, current)" by (simp add: traverse_index_def)
      then show ?thesis using True None by (simp add: v c)
    next
      case (Some ch)
      then have "traverse_index v current = (True, ch)" by (simp add: traverse_index_def)
      then show ?thesis using True Some ih[of ch] by (simp add: v c)
    qed
  next
    case False
    have c: "component_of part = FieldComponent (FieldName part)"
      using False by (simp add: component_of_def)
    show ?thesis
    proof (cases "map_get (NamedChildren current) (FieldName part)")
      case None
      then have "traverse_field (FieldName part) current = (False, current)"
        by (simp add: traverse_field_def)
      then show ?thesis using False None by (simp add: c)
    next
      case (Some ch)
      then have "traverse_field (FieldName part) current = (True, ch)"
        by (simp add: traverse_field_def)
      then show ?thesis using False Some ih[of ch] by (simp add: c)
    qed
  qed
qed

lemma constructed_parts_safe: "constructed p \<Longrightarrow> \<forall>part \<in> set (rev (collect_parts p)). \<exists>v. Index part = Inr v"
  using constructed_collect_parts constructed_Index_succeeds by auto

text \<open>
  On a path that can be constructed, \<open>EachComponent\<close> runs to the end when the callbacks
  go on, and reports \<open>component_of\<close> of the path and of its ancestors, root first: for an
  index marker that is the value of \<open>Index\<close>, which is not always the index of the marker.
\<close>

lemma EachComponent_constructed:
  "constructed p \<Longrightarrow> EachComponent p record_field record_index [] =
     (Inr True, map component_of (rev (collect_parts p)))"
  using each_part_record[OF constructed_parts_safe, of p "[]"] by (simp add: EachComponent_def)

lemma traverseTo_constructed:
  "constructed p \<Longrightarrow>
     traverseTo n p = Inr (node_at n (map component_of (rev (collect_parts p))))"
proof -
  assume b: "constructed p"
  let ?cs = "map component_of (rev (collect_parts p))"
  obtain r cur where e: "each_part (rev (collect_parts p)) traverse_field traverse_index n = (r, cur)"
    by (cases "each_part (rev (collect_parts p)) traverse_field traverse_index n") auto
  from each_part_traverse[OF constructed_parts_safe[OF b], of n] e
  have r: "r = Inr (node_at n ?cs \<noteq> None)"
    and m: "\<forall>m. node_at n ?cs = Some m \<longrightarrow> cur = m"
    by simp_all
  show ?thesis
  proof (cases "node_at n ?cs")
    case None
    then show ?thesis using r e by (simp add: traverseTo_def EachComponent_def)
  next
    case (Some m')
    then show ?thesis using r m e by (simp add: traverseTo_def EachComponent_def)
  qed
qed

text \<open>\<open>HasErrorAt\<close> does not panic on a path that can be constructed, whatever the tree.\<close>

lemma HasErrorAt_does_not_panic: "constructed p \<Longrightarrow> \<exists>b. HasErrorAt n p = Inr b"
  by (cases "node_at n (map component_of (rev (collect_parts p)))")
     (auto simp: HasErrorAt_def traverseTo_constructed)

subsection \<open>The claim about HasErrorAt\<close>

text \<open>
  C7, at a failing input. The tree is the one that
  \<open>root.DownField("a").DownField("b").DownIndex(3).Add(X)\<close> makes from a new root: the
  node of every component of the path \<open>/a/b[3]\<close> exists, and the node that the path
  names holds the error \<open>X\<close>. \<open>HasErrorAt\<close> of this path returns false where the claim
  says true: \<open>traverseTo\<close> gets index 0 from \<open>EachComponent\<close> for the marker \<open>[3]\<close>, and
  the node \<open>b\<close> has no child 0.
\<close>

theorem HasErrorAt_below_first_level:
  "DownField NewPath ''a'' = Inr ''/a'' \<and> DownField ''/a'' ''b'' = Inr ''/a/b'' \<and>
   DownIndex ''/a/b'' 3 = ''/a/b[3]'' \<and>
   update_at
     (update_at
        (update_at (DownField_node NewErrorNode ''a'')
           [FieldComponent ''a''] (\<lambda>m. DownField_node m ''b''))
        [FieldComponent ''a'', FieldComponent ''b''] (\<lambda>m. DownIndex_node m 3))
     [FieldComponent ''a'', FieldComponent ''b'', IndexComponent 3]
     (\<lambda>m. Add m (SimpleValidateError ''X''))
   = ErrorNode (Some [(''a'', ErrorNode (Some [(''b'',
       ErrorNode None (Some [(3, ErrorNode None None (Some [SimpleValidateError ''X'']))]) None)])
       None None)]) None None \<and>
   node_at
     (ErrorNode (Some [(''a'', ErrorNode (Some [(''b'',
        ErrorNode None (Some [(3, ErrorNode None None (Some [SimpleValidateError ''X'']))]) None)])
        None None)]) None None)
     [FieldComponent ''a'', FieldComponent ''b'', IndexComponent 3]
   = Some (ErrorNode None None (Some [SimpleValidateError ''X''])) \<and>
   HasErrorAt
     (ErrorNode (Some [(''a'', ErrorNode (Some [(''b'',
        ErrorNode None (Some [(3, ErrorNode None None (Some [SimpleValidateError ''X'']))]) None)])
        None None)]) None None)
     ''/a/b[3]''
   = Inr False"
  by code_simp

text \<open>
  The other way round, a tree whose node \<open>b\<close> has the child 0 only, with an error,
  answers true for the path \<open>/a/b[3]\<close>, none of whose nodes exists below \<open>b\<close>.
\<close>

lemma HasErrorAt_reads_child_0:
  "HasErrorAt
     (ErrorNode (Some [(''a'', ErrorNode (Some [(''b'',
        ErrorNode None (Some [(0, ErrorNode None None (Some [SimpleValidateError ''X'']))]) None)])
        None None)]) None None)
     ''/a/b[3]''
   = Inr True"
  by code_simp

text \<open>
  Without an index marker below the first level the answers are as the claim says:
  true at the node that holds the error, false at its parent, which holds none of its
  own, and false at a path that has no node.
\<close>

lemma HasErrorAt_examples:
  "HasErrorAt
     (ErrorNode (Some [(''a'', ErrorNode (Some [(''b'',
         ErrorNode None None (Some [SimpleValidateError ''X'']))]) None None)]) None None)
     ''/a/b'' = Inr True \<and>
   HasErrorAt
     (ErrorNode (Some [(''a'', ErrorNode (Some [(''b'',
         ErrorNode None None (Some [SimpleValidateError ''X'']))]) None None)]) None None)
     ''/a'' = Inr False \<and>
   HasErrorAt
     (ErrorNode (Some [(''a'', ErrorNode (Some [(''b'',
         ErrorNode None None (Some [SimpleValidateError ''X'']))]) None None)]) None None)
     ''/a/c'' = Inr False"
  by code_simp

section \<open>The assertion layer (issers.Is)\<close>

subsection \<open>The messages of issers/validate_error.go\<close>

definition ShouldBeTrueErr :: ValidateError where
  "ShouldBeTrueErr = SimpleValidateError ''should be true''"

definition ShouldBeFalseErr :: ValidateError where
  "ShouldBeFalseErr = SimpleValidateError ''should be false''"

definition ShouldBePresentErr :: ValidateError where
  "ShouldBePresentErr = SimpleValidateError ''should be present''"

definition NewShouldBeIntBetween :: "int \<Rightarrow> int \<Rightarrow> ValidateError" where
  "NewShouldBeIntBetween low high =
     ShouldBeMsg ''should be between %d and %d'' [IntArg low, IntArg high]"

definition NewShouldBeIntGreaterThan :: "int \<Rightarrow> ValidateError" where
  "NewShouldBeIntGreaterThan low = ShouldBeMsg ''should be greater than %d'' [IntArg low]"

definition NewShouldBeIntLessThan :: "int \<Rightarrow> ValidateError" where
  "NewShouldBeIntLessThan high = ShouldBeMsg ''should be less than %d'' [IntArg high]"

definition NewShouldBeIntGreaterThanOrEqual :: "int \<Rightarrow> ValidateError" where
  "NewShouldBeIntGreaterThanOrEqual low =
     ShouldBeMsg ''should be greater than or equal to %d'' [IntArg low]"

definition NewShouldBeIntLessThanOrEqual :: "int \<Rightarrow> ValidateError" where
  "NewShouldBeIntLessThanOrEqual high =
     ShouldBeMsg ''should be less than or equal to %d'' [IntArg high]"

definition NewShouldBeInStringSlice :: ValidateError where
  "NewShouldBeInStringSlice = ShouldBeMsg ''not an acceptable value'' []"

text \<open>\<open>defMsg.MsgFmt = fmt.Sprintf("length %s", defMsg.MsgFmt)\<close>.\<close>

definition length_message :: "ValidateError \<Rightarrow> ValidateError" where
  "length_message defMsg =
     (case defMsg of ShouldBeMsg f a \<Rightarrow> ShouldBeMsg (''length '' @ f) a | e \<Rightarrow> e)"

subsection \<open>The state\<close>

text \<open>
  The struct \<open>Is\<close>. \<open>errorsCount\<close> is a Go \<open>int\<close>, 64 bits, whose increment wraps.
  \<open>invalidLog\<close> is a ghost field that the source does not have: the arguments of the
  calls of \<open>Invalid\<close> so far. No function reads it; the claims about the number of
  errors recorded are stated with it.
\<close>

record Is =
  currentPath :: Path
  errorsRoot :: "ErrorNode option"
  errorsCount :: "64 word"
  invalidLog :: "ValidateError list"

definition NewRoot :: Is where
  "NewRoot = \<lparr>currentPath = NewPath, errorsRoot = None, errorsCount = 0, invalidLog = []\<rparr>"

text \<open>The zero value \<open>Is{}\<close>, from which the tests of the package start.\<close>

definition Is_zero :: Is where
  "Is_zero = \<lparr>currentPath = [], errorsRoot = None, errorsCount = 0, invalidLog = []\<rparr>"

definition CurrentPath :: "Is \<Rightarrow> Path" where
  "CurrentPath i = currentPath i"

definition HasErrors :: "Is \<Rightarrow> bool" where
  "HasErrors i = (errorsCount i \<noteq> 0)"

definition Len :: "Is \<Rightarrow> int" where
  "Len i = sint (errorsCount i)"

text \<open>\<open>errors\<close>: the receiver after the call; the result is a pointer to its root.\<close>

definition errors :: "Is \<Rightarrow> Is" where
  "errors i = (case errorsRoot i of None \<Rightarrow> i\<lparr>errorsRoot := Some NewErrorNode\<rparr> | Some r \<Rightarrow> i)"

text \<open>
  The closures of \<open>currentErrorNode\<close> capture the pointer \<open>n\<close>; they call the creating
  \<open>DownField\<close> and \<open>DownIndex\<close> of the node, which change the tree. Their state is the
  tree and the components from its root to \<open>n\<close>.
\<close>

definition create_field :: "string \<Rightarrow> ErrorNode \<times> component list \<Rightarrow> bool \<times> ErrorNode \<times> component list" where
  "create_field fieldName s =
     (case s of (root, n) \<Rightarrow>
        (True, update_at root n (\<lambda>m. DownField_node m fieldName), n @ [FieldComponent fieldName]))"

definition create_index :: "int \<Rightarrow> ErrorNode \<times> component list \<Rightarrow> bool \<times> ErrorNode \<times> component list" where
  "create_index index s =
     (case s of (root, n) \<Rightarrow>
        (True, update_at root n (\<lambda>m. DownIndex_node m index), n @ [IndexComponent index]))"

text \<open>\<open>currentErrorNode\<close>: a panic or the pointer \<open>n\<close>, and the receiver after the call.\<close>

definition currentErrorNode :: "Is \<Rightarrow> (error + component list) \<times> Is" where
  "currentErrorNode i =
     (let i1 = errors i;
          root = (case errorsRoot i1 of None \<Rightarrow> NewErrorNode | Some r \<Rightarrow> r)
      in case EachComponent (currentPath i1) create_field create_index (root, []) of
           (Inl p, (root', n)) \<Rightarrow> (Inl p, i1\<lparr>errorsRoot := Some root'\<rparr>)
         | (Inr b, (root', n)) \<Rightarrow> (Inr n, i1\<lparr>errorsRoot := Some root'\<rparr>))"

definition Invalid :: "ValidateError \<Rightarrow> Is \<Rightarrow> (error + unit) \<times> Is" where
  "Invalid msg i =
     (let i1 = i\<lparr>errorsCount := errorsCount i + 1, invalidLog := invalidLog i @ [msg]\<rparr>
      in case currentErrorNode i1 of
           (Inl p, i2) \<Rightarrow> (Inl p, i2)
         | (Inr n, i2) \<Rightarrow>
             (Inr (), i2\<lparr>errorsRoot := map_option (\<lambda>root. update_at root n (\<lambda>m. Add m msg)) (errorsRoot i2)\<rparr>))"

text \<open>
  A message callback \<open>func() ifaces.ValidateError\<close>: \<open>None\<close> is the nil function, \<open>Some e\<close>
  a function that returns \<open>e\<close>, which may be nil.
\<close>

definition msgOrDefault :: "ValidateError option \<Rightarrow> ValidateError \<Rightarrow> ValidateError" where
  "msgOrDefault in' def =
     (case in' of
        Some ret \<Rightarrow> if ret = NilValidateError then def else ret
      | None \<Rightarrow> def)"

definition True_Is :: "bool \<Rightarrow> ValidateError option \<Rightarrow> Is \<Rightarrow> (error + bool) \<times> Is" where
  "True_Is value msg i =
     (if \<not> value then
        (case Invalid (msgOrDefault msg ShouldBeTrueErr) i of
           (Inl p, i') \<Rightarrow> (Inl p, i')
         | (Inr u, i') \<Rightarrow> (Inr False, i'))
      else (Inr True, i))"

definition False_Is :: "bool \<Rightarrow> ValidateError option \<Rightarrow> Is \<Rightarrow> (error + bool) \<times> Is" where
  "False_Is value msg i = True_Is (\<not> value) (Some (msgOrDefault msg ShouldBeFalseErr)) i"

definition Required :: "bool \<Rightarrow> Is \<Rightarrow> (error + bool) \<times> Is" where
  "Required isPresent i =
     (if \<not> isPresent then
        (case True_Is False (Some ShouldBePresentErr) i of
           (Inl p, i') \<Rightarrow> (Inl p, i')
         | (Inr b, i') \<Rightarrow> (Inr False, i'))
      else (Inr True, i))"

definition IntBetween :: "int \<Rightarrow> int \<Rightarrow> int \<Rightarrow> ValidateError option \<Rightarrow> Is \<Rightarrow> (error + bool) \<times> Is" where
  "IntBetween value low high msg i =
     (if low > high then (Inl LowGreaterThanHigh, i)
      else True_Is (low \<le> value \<and> value \<le> high)
             (Some (msgOrDefault msg (NewShouldBeIntBetween low high))) i)"

definition IntGreaterThan :: "int \<Rightarrow> int \<Rightarrow> ValidateError option \<Rightarrow> Is \<Rightarrow> (error + bool) \<times> Is" where
  "IntGreaterThan value low msg i =
     True_Is (low < value) (Some (msgOrDefault msg (NewShouldBeIntGreaterThan low))) i"

definition IntLessThan :: "int \<Rightarrow> int \<Rightarrow> ValidateError option \<Rightarrow> Is \<Rightarrow> (error + bool) \<times> Is" where
  "IntLessThan value high msg i =
     True_Is (value < high) (Some (msgOrDefault msg (NewShouldBeIntLessThan high))) i"

definition IntGreaterThanOrEqual :: "int \<Rightarrow> int \<Rightarrow> ValidateError option \<Rightarrow> Is \<Rightarrow> (error + bool) \<times> Is" where
  "IntGreaterThanOrEqual value low msg i =
     True_Is (low \<le> value) (Some (msgOrDefault msg (NewShouldBeIntGreaterThanOrEqual low))) i"

definition IntLessThanOrEqual :: "int \<Rightarrow> int \<Rightarrow> ValidateError option \<Rightarrow> Is \<Rightarrow> (error + bool) \<times> Is" where
  "IntLessThanOrEqual value high msg i =
     True_Is (value \<le> high) (Some (msgOrDefault msg (NewShouldBeIntLessThanOrEqual high))) i"

definition StringLengthBetween :: "string \<Rightarrow> int \<Rightarrow> int \<Rightarrow> ValidateError option \<Rightarrow> Is \<Rightarrow> (error + bool) \<times> Is" where
  "StringLengthBetween value low high msg i =
     (if low > high then (Inl LowGreaterThanHigh, i)
      else IntBetween (int (length value)) low high
             (Some (msgOrDefault msg (length_message (NewShouldBeIntBetween low high)))) i)"

definition StringLengthGreaterThan :: "string \<Rightarrow> int \<Rightarrow> ValidateError option \<Rightarrow> Is \<Rightarrow> (error + bool) \<times> Is" where
  "StringLengthGreaterThan value low msg i =
     IntGreaterThan (int (length value)) low
       (Some (msgOrDefault msg (length_message (NewShouldBeIntGreaterThan low)))) i"

definition StringLengthLessThan :: "string \<Rightarrow> int \<Rightarrow> ValidateError option \<Rightarrow> Is \<Rightarrow> (error + bool) \<times> Is" where
  "StringLengthLessThan value high msg i =
     IntLessThan (int (length value)) high
       (Some (msgOrDefault msg (length_message (NewShouldBeIntGreaterThan high)))) i"

definition StringLengthGreaterThanOrEqual :: "string \<Rightarrow> int \<Rightarrow> ValidateError option \<Rightarrow> Is \<Rightarrow> (error + bool) \<times> Is" where
  "StringLengthGreaterThanOrEqual value low msg i =
     IntGreaterThanOrEqual (int (length value)) low
       (Some (msgOrDefault msg (length_message (NewShouldBeIntGreaterThanOrEqual low)))) i"

definition StringLengthLessThanOrEqual :: "string \<Rightarrow> int \<Rightarrow> ValidateError option \<Rightarrow> Is \<Rightarrow> (error + bool) \<times> Is" where
  "StringLengthLessThanOrEqual value high msg i =
     IntLessThanOrEqual (int (length value)) high
       (Some (msgOrDefault msg (length_message (NewShouldBeIntGreaterThanOrEqual high)))) i"

definition StringInStringSlice :: "string \<Rightarrow> string list \<Rightarrow> ValidateError option \<Rightarrow> Is \<Rightarrow> (error + bool) \<times> Is" where
  "StringInStringSlice value values msg i =
     (if list_ex (\<lambda>v. value = v) values then (Inr True, i)
      else (case Invalid (msgOrDefault msg NewShouldBeInStringSlice) i of
              (Inl p, i') \<Rightarrow> (Inl p, i')
            | (Inr u, i') \<Rightarrow> (Inr False, i')))"

subsection \<open>With, WithField, WithIndex\<close>

text \<open>
  A callback is a function from the state of the receiver to an outcome (a panic or a
  normal return, early or not) and the state it leaves. The deferred function of
  \<open>With\<close> runs on both outcomes.
\<close>

definition With :: "(Is \<Rightarrow> (error + unit) \<times> Is) \<Rightarrow> Is \<Rightarrow> (error + unit) \<times> Is" where
  "With wrap i =
     (let originalPath = currentPath i
      in case wrap i of (outcome, i') \<Rightarrow> (outcome, i'\<lparr>currentPath := originalPath\<rparr>))"

definition WithField :: "string \<Rightarrow> (Is \<Rightarrow> (error + unit) \<times> Is) \<Rightarrow> Is \<Rightarrow> (error + unit) \<times> Is" where
  "WithField fieldName wrap i =
     With (\<lambda>i. case DownField (currentPath i) fieldName of
                 Inl p \<Rightarrow> (Inl p, i)
               | Inr q \<Rightarrow> wrap (i\<lparr>currentPath := q\<rparr>)) i"

definition WithIndex :: "int \<Rightarrow> (Is \<Rightarrow> (error + unit) \<times> Is) \<Rightarrow> Is \<Rightarrow> (error + unit) \<times> Is" where
  "WithIndex index wrap i =
     With (\<lambda>i. wrap (i\<lparr>currentPath := DownIndex (currentPath i) index\<rparr>)) i"

subsection \<open>Client code\<close>

text \<open>
  A sequence of operations on an \<open>Is\<close>: calls of its methods, with the callbacks of
  \<open>With\<close>, \<open>WithField\<close> and \<open>WithIndex\<close> sequences themselves; the code of the client may
  panic, and may recover from a panic and go on. \<open>ValidStructField\<close> and
  \<open>ValidStructIndex\<close> are \<open>WithField\<close> and \<open>WithIndex\<close> around the client's \<open>Validate\<close>.
  A callback that returns early is a shorter sequence.
\<close>

datatype call =
    CallInvalid ValidateError
  | CallTrue bool "ValidateError option"
  | CallFalse bool "ValidateError option"
  | CallRequired bool
  | CallIntBetween int int int "ValidateError option"
  | CallIntGreaterThan int int "ValidateError option"
  | CallIntLessThan int int "ValidateError option"
  | CallIntGreaterThanOrEqual int int "ValidateError option"
  | CallIntLessThanOrEqual int int "ValidateError option"
  | CallStringLengthBetween string int int "ValidateError option"
  | CallStringLengthGreaterThan string int "ValidateError option"
  | CallStringLengthLessThan string int "ValidateError option"
  | CallStringLengthGreaterThanOrEqual string int "ValidateError option"
  | CallStringLengthLessThanOrEqual string int "ValidateError option"
  | CallStringInStringSlice string "string list" "ValidateError option"
  | CallWith "call list"
  | CallWithField string "call list"
  | CallWithIndex int "call list"
  | ClientPanics
  | ClientRecovers "call list"

definition discard :: "(error + 'a) \<times> Is \<Rightarrow> (error + unit) \<times> Is" where
  "discard r = (case r of (Inl p, i) \<Rightarrow> (Inl p, i) | (Inr v, i) \<Rightarrow> (Inr (), i))"

fun run :: "call \<Rightarrow> Is \<Rightarrow> (error + unit) \<times> Is"
  and run_list :: "call list \<Rightarrow> Is \<Rightarrow> (error + unit) \<times> Is"
where
  "run (CallInvalid msg) i = Invalid msg i"
| "run (CallTrue v msg) i = discard (True_Is v msg i)"
| "run (CallFalse v msg) i = discard (False_Is v msg i)"
| "run (CallRequired v) i = discard (Required v i)"
| "run (CallIntBetween v lo hi msg) i = discard (IntBetween v lo hi msg i)"
| "run (CallIntGreaterThan v lo msg) i = discard (IntGreaterThan v lo msg i)"
| "run (CallIntLessThan v hi msg) i = discard (IntLessThan v hi msg i)"
| "run (CallIntGreaterThanOrEqual v lo msg) i = discard (IntGreaterThanOrEqual v lo msg i)"
| "run (CallIntLessThanOrEqual v hi msg) i = discard (IntLessThanOrEqual v hi msg i)"
| "run (CallStringLengthBetween v lo hi msg) i = discard (StringLengthBetween v lo hi msg i)"
| "run (CallStringLengthGreaterThan v lo msg) i = discard (StringLengthGreaterThan v lo msg i)"
| "run (CallStringLengthLessThan v hi msg) i = discard (StringLengthLessThan v hi msg i)"
| "run (CallStringLengthGreaterThanOrEqual v lo msg) i =
     discard (StringLengthGreaterThanOrEqual v lo msg i)"
| "run (CallStringLengthLessThanOrEqual v hi msg) i =
     discard (StringLengthLessThanOrEqual v hi msg i)"
| "run (CallStringInStringSlice v vs msg) i = discard (StringInStringSlice v vs msg i)"
| "run (CallWith cs) i = With (\<lambda>j. run_list cs j) i"
| "run (CallWithField name cs) i = WithField name (\<lambda>j. run_list cs j) i"
| "run (CallWithIndex index cs) i = WithIndex index (\<lambda>j. run_list cs j) i"
| "run ClientPanics i = (Inl ClientPanic, i)"
| "run (ClientRecovers cs) i = (case run_list cs i of (outcome, i') \<Rightarrow> (Inr (), i'))"
| "run_list [] i = (Inr (), i)"
| "run_list (c # cs) i =
     (case run c i of
        (Inl p, i') \<Rightarrow> (Inl p, i')
      | (Inr u, i') \<Rightarrow> run_list cs i')"

section \<open>The claim about the cursor of the assertion layer\<close>

text \<open>
  C9. For every \<open>Is\<close> value \<open>i\<close> and every callback, whether it returns normally,
  returns early or panics: after \<open>With\<close>, \<open>WithField\<close> and \<open>WithIndex\<close> the cursor is the
  cursor of \<open>i\<close>; the outcome of \<open>With\<close> is that of the callback, and its final state is
  the state that the callback left with only \<open>currentPath\<close> set back; the callback of
  \<open>WithField\<close> runs on \<open>i\<close> with the cursor moved by \<open>DownField\<close> (when the name is
  invalid, \<open>DownField\<close> panics, the callback does not run and \<open>i\<close> is unchanged), and
  the callback of \<open>WithIndex\<close> runs on \<open>i\<close> with the cursor moved by \<open>DownIndex\<close>.
\<close>

theorem With_restores_currentPath:
  "currentPath (snd (With wrap i)) = currentPath i \<and>
   fst (With wrap i) = fst (wrap i) \<and>
   snd (With wrap i) = (snd (wrap i))\<lparr>currentPath := currentPath i\<rparr> \<and>
   currentPath (snd (WithField fieldName f i)) = currentPath i \<and>
   currentPath (snd (WithIndex index f i)) = currentPath i \<and>
   (\<forall>q. DownField (currentPath i) fieldName = Inr q \<longrightarrow>
        WithField fieldName f i =
          (fst (f (i\<lparr>currentPath := q\<rparr>)),
           (snd (f (i\<lparr>currentPath := q\<rparr>)))\<lparr>currentPath := currentPath i\<rparr>)) \<and>
   (\<forall>e. DownField (currentPath i) fieldName = Inl e \<longrightarrow> WithField fieldName f i = (Inl e, i)) \<and>
   WithIndex index f i =
     (fst (f (i\<lparr>currentPath := DownIndex (currentPath i) index\<rparr>)),
      (snd (f (i\<lparr>currentPath := DownIndex (currentPath i) index\<rparr>)))\<lparr>currentPath := currentPath i\<rparr>)"
proof -
  have w: "With g j = (fst (g j), (snd (g j))\<lparr>currentPath := currentPath j\<rparr>)" for g j
    by (simp add: With_def Let_def split: prod.splits)
  show ?thesis
    by (auto simp: w WithField_def WithIndex_def split: sum.splits)
qed

theorem With_restores_currentPath_witness:
  "DownField (currentPath NewRoot) ''a'' = Inr ''/a'' \<and>
   WithField ''a'' (WithIndex 3 (\<lambda>j. (Inl ClientPanic, j))) NewRoot = (Inl ClientPanic, NewRoot) \<and>
   DownField (currentPath NewRoot) ''a/b'' = Inl (InvalidFieldName ''a/b'') \<and>
   WithField ''a/b'' (Invalid ShouldBeTrueErr) NewRoot = (Inl (InvalidFieldName ''a/b''), NewRoot) \<and>
   currentPath (snd (WithField ''a'' (Invalid ShouldBeTrueErr) NewRoot)) = currentPath NewRoot"
proof -
  have d: "DownField (currentPath NewRoot) ''a'' = Inr ''/a''"
    "DownField (currentPath NewRoot) ''a/b'' = Inl (InvalidFieldName ''a/b'')" by code_simp+
  have i: "WithIndex 3 (\<lambda>j. (Inl ClientPanic, j)) (NewRoot\<lparr>currentPath := ''/a''\<rparr>)
            = (Inl ClientPanic, NewRoot\<lparr>currentPath := ''/a''\<rparr>)"
    using With_restores_currentPath[of "\<lambda>j. (Inl ClientPanic, j)" "NewRoot\<lparr>currentPath := ''/a''\<rparr>"
        "''a''" "\<lambda>j. (Inl ClientPanic, j)" 3]
    by simp
  have r: "(NewRoot\<lparr>currentPath := ''/a''\<rparr>)\<lparr>currentPath := currentPath NewRoot\<rparr> = NewRoot" by simp
  have 1: "WithField ''a'' (WithIndex 3 (\<lambda>j. (Inl ClientPanic, j))) NewRoot = (Inl ClientPanic, NewRoot)"
    using With_restores_currentPath[of "\<lambda>j. (Inl ClientPanic, j)" NewRoot "''a''"
        "WithIndex 3 (\<lambda>j. (Inl ClientPanic, j))" 3] d(1) i r
    by simp
  have 2: "WithField ''a/b'' (Invalid ShouldBeTrueErr) NewRoot = (Inl (InvalidFieldName ''a/b''), NewRoot)"
    using With_restores_currentPath[of "Invalid ShouldBeTrueErr" NewRoot "''a/b''"
        "Invalid ShouldBeTrueErr" 3] d(2)
    by blast
  have 3: "currentPath (snd (WithField ''a'' (Invalid ShouldBeTrueErr) NewRoot)) = currentPath NewRoot"
    using With_restores_currentPath[of "Invalid ShouldBeTrueErr" NewRoot "''a''"
        "Invalid ShouldBeTrueErr" 3]
    by blast
  show ?thesis using d 1 2 3 by blast
qed

section \<open>The number of errors of the assertion layer\<close>

subsection \<open>Pointers into the tree\<close>

abbreviation children_total :: "('k \<times> ErrorNode) list \<Rightarrow> nat" where
  "children_total kvs \<equiv> sum_list (map (\<lambda>(k, c). total_errors c) kvs)"

lemma total_update_entry:
  "map_of kvs k = Some c \<Longrightarrow>
     children_total (update_entry k f kvs) + total_errors c = children_total kvs + total_errors (f c)"
  by (induction kvs) (auto split: if_splits)

lemma map_of_update_entry:
  "map_of kvs k = Some c \<Longrightarrow> map_of (update_entry k f kvs) k = Some (f c)"
  by (induction kvs) (auto split: if_splits)

lemma node_at_append:
  "node_at n (cs @ ds) = (case node_at n cs of None \<Rightarrow> None | Some m \<Rightarrow> node_at m ds)"
proof (induction n cs rule: node_at.induct)
  case (1 n)
  show ?case by simp
next
  case (2 n name cs)
  then show ?case by (simp split: option.splits)
next
  case (3 n index cs)
  then show ?case by (simp split: option.splits)
qed

lemma node_at_update_at:
  "node_at root n = Some m \<Longrightarrow> node_at (update_at root n f) n = Some (f m)"
proof (induction root n arbitrary: m rule: node_at.induct)
  case (1 n)
  then show ?case by simp
next
  case (2 n name cs)
  then obtain kvs c where k: "NamedChildren n = Some kvs" "map_of kvs name = Some c"
      "node_at c cs = Some m"
    by (auto simp: map_get_def split: option.splits)
  have "node_at (update_at c cs f) cs = Some (f m)"
    using 2 k by (simp add: map_get_def)
  then show ?case using k map_of_update_entry[OF k(2), of "\<lambda>c. update_at c cs f"]
    by (simp add: map_get_def)
next
  case (3 n index cs)
  then obtain kvs c where k: "NumberedChildren n = Some kvs" "map_of kvs index = Some c"
      "node_at c cs = Some m"
    by (auto simp: map_get_def split: option.splits)
  have "node_at (update_at c cs f) cs = Some (f m)"
    using 3 k by (simp add: map_get_def)
  then show ?case using k map_of_update_entry[OF k(2), of "\<lambda>c. update_at c cs f"]
    by (simp add: map_get_def)
qed

lemma total_errors_sel:
  "total_errors n = length (slice_elems (errs n))
     + (case NamedChildren n of None \<Rightarrow> 0 | Some kvs \<Rightarrow> children_total kvs)
     + (case NumberedChildren n of None \<Rightarrow> 0 | Some kvs \<Rightarrow> children_total kvs)"
  by (cases n) simp

lemma total_update_at:
  "node_at root n = Some m \<Longrightarrow>
     total_errors (update_at root n f) + total_errors m = total_errors root + total_errors (f m)"
proof (induction root n arbitrary: m rule: node_at.induct)
  case (1 n)
  then show ?case by simp
next
  case (2 n name cs)
  then obtain kvs c where k: "NamedChildren n = Some kvs" "map_of kvs name = Some c"
      "node_at c cs = Some m"
    by (auto simp: map_get_def split: option.splits)
  have ih: "total_errors (update_at c cs f) + total_errors m = total_errors c + total_errors (f m)"
    using 2 k by (simp add: map_get_def)
  have "children_total (update_entry name (\<lambda>c. update_at c cs f) kvs) + total_errors c
          = children_total kvs + total_errors (update_at c cs f)"
    by (rule total_update_entry[OF k(2)])
  then show ?case using ih k(1) by (simp add: total_errors_sel[of n])
next
  case (3 n index cs)
  then obtain kvs c where k: "NumberedChildren n = Some kvs" "map_of kvs index = Some c"
      "node_at c cs = Some m"
    by (auto simp: map_get_def split: option.splits)
  have ih: "total_errors (update_at c cs f) + total_errors m = total_errors c + total_errors (f m)"
    using 3 k by (simp add: map_get_def)
  have "children_total (update_entry index (\<lambda>c. update_at c cs f) kvs) + total_errors c
          = children_total kvs + total_errors (update_at c cs f)"
    by (rule total_update_entry[OF k(2)])
  then show ?case using ih k(1) by (simp add: total_errors_sel[of n])
qed

lemma total_NewErrorNode: "total_errors NewErrorNode = 0"
  by (simp add: NewErrorNode_def slice_elems_def)

lemma map_ensure_total:
  "(case map_ensure m k of None \<Rightarrow> 0 | Some kvs \<Rightarrow> children_total kvs)
     = (case m of None \<Rightarrow> 0 | Some kvs \<Rightarrow> children_total kvs)"
  by (auto simp: map_ensure_def Let_def total_NewErrorNode split: option.splits)

lemma map_of_snoc_new: "map_of kvs k = None \<Longrightarrow> map_of (kvs @ [(k, v)]) k = Some v"
  by (induction kvs) (auto split: if_splits)

lemma map_ensure_get: "\<exists>c. map_get (map_ensure m k) k = Some c"
proof -
  let ?kvs = "case m of None \<Rightarrow> [] | Some kvs \<Rightarrow> kvs"
  show ?thesis
  proof (cases "map_of ?kvs k")
    case None
    then show ?thesis using map_of_snoc_new[OF None, of NewErrorNode]
      by (simp add: map_ensure_def map_get_def Let_def)
  next
    case (Some c)
    then show ?thesis by (simp add: map_ensure_def map_get_def Let_def)
  qed
qed

lemma total_DownField_node: "total_errors (DownField_node m name) = total_errors m"
  using map_ensure_total[of "NamedChildren m" name]
  by (simp add: DownField_node_def total_errors_sel[of m])

lemma total_DownIndex_node: "total_errors (DownIndex_node m index) = total_errors m"
  using map_ensure_total[of "NumberedChildren m" index]
  by (simp add: DownIndex_node_def total_errors_sel[of m])

lemma total_Add: "total_errors (Add m e) = Suc (total_errors m)"
  by (simp add: Add_def total_errors_sel[of m] slice_elems_def)

lemma node_at_DownField_node: "\<exists>c. node_at (DownField_node m name) [FieldComponent name] = Some c"
  using map_ensure_get[of "NamedChildren m" name] by (auto simp: DownField_node_def)

lemma node_at_DownIndex_node: "\<exists>c. node_at (DownIndex_node m index) [IndexComponent index] = Some c"
  using map_ensure_get[of "NumberedChildren m" index] by (auto simp: DownIndex_node_def)

lemma create_step:
  assumes "node_at root n = Some m"
    and t: "total_errors (g m) = total_errors m"
    and c: "\<exists>c. node_at (g m) [x] = Some c"
  shows "total_errors (update_at root n g) = total_errors root \<and>
         (\<exists>c. node_at (update_at root n g) (n @ [x]) = Some c)"
proof -
  have "total_errors (update_at root n g) + total_errors m = total_errors root + total_errors (g m)"
    by (rule total_update_at[OF assms(1)])
  then have 1: "total_errors (update_at root n g) = total_errors root" using t by simp
  have "node_at (update_at root n g) n = Some (g m)" by (rule node_at_update_at[OF assms(1)])
  then have 2: "\<exists>c. node_at (update_at root n g) (n @ [x]) = Some c"
    using c by (simp add: node_at_append)
  show ?thesis using 1 2 by blast
qed

lemma each_part_create:
  "\<forall>part \<in> set ps. \<exists>v. Index part = Inr v \<Longrightarrow> node_at root n = Some m \<Longrightarrow>
     \<exists>root' m'. each_part ps create_field create_index (root, n)
                  = (Inr True, (root', n @ map component_of ps)) \<and>
               node_at root' (n @ map component_of ps) = Some m' \<and>
               total_errors root' = total_errors root"
proof (induction ps arbitrary: root n m)
  case Nil
  then show ?case by simp
next
  case (Cons part ps)
  then obtain v where v: "Index part = Inr v" by auto
  have safe: "\<forall>part \<in> set ps. \<exists>v. Index part = Inr v" using Cons.prems(1) by simp
  show ?case
  proof (cases "IsArrayElement part")
    case True
    let ?root = "update_at root n (\<lambda>m. DownIndex_node m v)"
    have c: "component_of part = IndexComponent v" using True v by (simp add: component_of_def)
    have s: "create_index v (root, n) = (True, (?root, n @ [IndexComponent v]))"
      by (simp add: create_index_def)
    from create_step[OF Cons.prems(2), of "\<lambda>m. DownIndex_node m v" "IndexComponent v"]
    obtain ch where st: "total_errors ?root = total_errors root"
        "node_at ?root (n @ [IndexComponent v]) = Some ch"
      using total_DownIndex_node node_at_DownIndex_node by blast
    from Cons.IH[OF safe st(2)] obtain root' m' where
      r: "each_part ps create_field create_index (?root, n @ [IndexComponent v])
            = (Inr True, (root', (n @ [IndexComponent v]) @ map component_of ps))"
        "node_at root' ((n @ [IndexComponent v]) @ map component_of ps) = Some m'"
        "total_errors root' = total_errors ?root"
      by blast
    show ?thesis using True v s r st(1) by (simp add: c)
  next
    case False
    let ?name = "FieldName part"
    let ?root = "update_at root n (\<lambda>m. DownField_node m ?name)"
    have c: "component_of part = FieldComponent ?name" using False by (simp add: component_of_def)
    have s: "create_field ?name (root, n) = (True, (?root, n @ [FieldComponent ?name]))"
      by (simp add: create_field_def)
    from create_step[OF Cons.prems(2), of "\<lambda>m. DownField_node m ?name" "FieldComponent ?name"]
    obtain ch where st: "total_errors ?root = total_errors root"
        "node_at ?root (n @ [FieldComponent ?name]) = Some ch"
      using total_DownField_node node_at_DownField_node by blast
    from Cons.IH[OF safe st(2)] obtain root' m' where
      r: "each_part ps create_field create_index (?root, n @ [FieldComponent ?name])
            = (Inr True, (root', (n @ [FieldComponent ?name]) @ map component_of ps))"
        "node_at root' ((n @ [FieldComponent ?name]) @ map component_of ps) = Some m'"
        "total_errors root' = total_errors ?root"
      by blast
    show ?thesis using False s r st(1) by (simp add: c)
  qed
qed

subsection \<open>The counter and the tree\<close>

text \<open>The number of error values in the tree of an \<open>Is\<close>; there is none before the root is made.\<close>

definition tree_total :: "Is \<Rightarrow> nat" where
  "tree_total i = (case errorsRoot i of None \<Rightarrow> 0 | Some r \<Rightarrow> total_errors r)"

text \<open>
  The invariant: the cursor is a path that can be constructed, and the counter (modulo
  \<open>2 ^ 64\<close>) and the number of error values in the tree are both the number of calls
  of \<open>Invalid\<close>.
\<close>

definition Is_invariant :: "Is \<Rightarrow> bool" where
  "Is_invariant i \<longleftrightarrow>
     constructed (currentPath i) \<and>
     errorsCount i = of_nat (length (invalidLog i)) \<and>
     tree_total i = length (invalidLog i)"

lemma Invalid_effect:
  assumes b: "constructed (currentPath i)"
  shows "\<exists>i'. Invalid msg i = (Inr (), i') \<and> currentPath i' = currentPath i \<and>
              errorsCount i' = errorsCount i + 1 \<and> invalidLog i' = invalidLog i @ [msg] \<and>
              tree_total i' = Suc (tree_total i)"
proof -
  let ?root = "case errorsRoot i of None \<Rightarrow> NewErrorNode | Some r \<Rightarrow> r"
  let ?i1 = "i\<lparr>errorsCount := errorsCount i + 1, invalidLog := invalidLog i @ [msg]\<rparr>"
  let ?i2 = "errors ?i1"
  have p: "currentPath ?i2 = currentPath i" by (simp add: errors_def split: option.splits)
  have r: "(case errorsRoot ?i2 of None \<Rightarrow> NewErrorNode | Some r \<Rightarrow> r) = ?root"
    by (simp add: errors_def split: option.splits)
  have t: "total_errors ?root = tree_total i"
    by (simp add: tree_total_def total_NewErrorNode split: option.splits)
  have at: "node_at ?root [] = Some ?root" by simp
  from each_part_create[OF constructed_parts_safe[OF b] at]
  obtain root' m' where e:
      "each_part (rev (collect_parts (currentPath i))) create_field create_index (?root, [])
         = (Inr True, (root', [] @ map component_of (rev (collect_parts (currentPath i)))))"
      "node_at root' ([] @ map component_of (rev (collect_parts (currentPath i)))) = Some m'"
      "total_errors root' = total_errors ?root"
    by blast
  let ?n = "map component_of (rev (collect_parts (currentPath i)))"
  have c: "currentErrorNode ?i1 = (Inr ?n, ?i2\<lparr>errorsRoot := Some root'\<rparr>)"
    using e(1) by (simp add: currentErrorNode_def Let_def p r EachComponent_def)
  let ?final = "update_at root' ?n (\<lambda>m. Add m msg)"
  have "total_errors ?final + total_errors m' = total_errors root' + total_errors (Add m' msg)"
    using e(2) by (intro total_update_at) simp
  then have tf: "total_errors ?final = Suc (tree_total i)" using e(3) t by (simp add: total_Add)
  have "Invalid msg i = (Inr (), ?i2\<lparr>errorsRoot := Some ?final\<rparr>)"
    by (simp add: Invalid_def Let_def c)
  moreover have "currentPath (?i2\<lparr>errorsRoot := Some ?final\<rparr>) = currentPath i" using p by simp
  moreover have "errorsCount (?i2\<lparr>errorsRoot := Some ?final\<rparr>) = errorsCount i + 1"
    by (simp add: errors_def split: option.splits)
  moreover have "invalidLog (?i2\<lparr>errorsRoot := Some ?final\<rparr>) = invalidLog i @ [msg]"
    by (simp add: errors_def split: option.splits)
  moreover have "tree_total (?i2\<lparr>errorsRoot := Some ?final\<rparr>) = Suc (tree_total i)"
    using tf by (simp add: tree_total_def)
  ultimately show ?thesis by blast
qed

text \<open>A method keeps the invariant and the cursor, however it returns.\<close>

definition keeps :: "(Is \<Rightarrow> (error + 'a) \<times> Is) \<Rightarrow> bool" where
  "keeps f \<longleftrightarrow>
     (\<forall>i. Is_invariant i \<longrightarrow> Is_invariant (snd (f i)) \<and> currentPath (snd (f i)) = currentPath i)"

lemma keeps_Invalid: "keeps (Invalid msg)"
proof -
  have "Is_invariant (snd (Invalid msg i)) \<and> currentPath (snd (Invalid msg i)) = currentPath i"
    if inv: "Is_invariant i" for i
  proof -
    from inv have b: "constructed (currentPath i)" by (simp add: Is_invariant_def)
    from Invalid_effect[OF b, of msg] obtain i' where
      e: "Invalid msg i = (Inr (), i')" "currentPath i' = currentPath i"
        "errorsCount i' = errorsCount i + 1" "invalidLog i' = invalidLog i @ [msg]"
        "tree_total i' = Suc (tree_total i)"
      by blast
    show ?thesis using inv e by (simp add: Is_invariant_def)
  qed
  then show ?thesis by (simp add: keeps_def)
qed

lemma keeps_return: "keeps (\<lambda>i. (r, i))"
  by (simp add: keeps_def)

lemma keeps_True_Is: "keeps (True_Is v msg)"
  using keeps_Invalid[of "msgOrDefault msg ShouldBeTrueErr"]
  by (auto simp: keeps_def True_Is_def split: prod.splits sum.splits)

lemma keeps_False_Is: "keeps (False_Is v msg)"
  using keeps_True_Is by (simp add: keeps_def False_Is_def)

lemma keeps_Required: "keeps (Required v)"
  using keeps_True_Is[of False "Some ShouldBePresentErr"]
  by (auto simp: keeps_def Required_def split: prod.splits sum.splits)

lemma keeps_IntBetween: "keeps (IntBetween v lo hi msg)"
  using keeps_True_Is by (simp add: keeps_def IntBetween_def)

lemma keeps_IntGreaterThan: "keeps (IntGreaterThan v lo msg)"
  using keeps_True_Is by (simp add: keeps_def IntGreaterThan_def)

lemma keeps_IntLessThan: "keeps (IntLessThan v hi msg)"
  using keeps_True_Is by (simp add: keeps_def IntLessThan_def)

lemma keeps_IntGreaterThanOrEqual: "keeps (IntGreaterThanOrEqual v lo msg)"
  using keeps_True_Is by (simp add: keeps_def IntGreaterThanOrEqual_def)

lemma keeps_IntLessThanOrEqual: "keeps (IntLessThanOrEqual v hi msg)"
  using keeps_True_Is by (simp add: keeps_def IntLessThanOrEqual_def)

lemma keeps_StringLengthBetween: "keeps (StringLengthBetween v lo hi msg)"
  using keeps_IntBetween by (simp add: keeps_def StringLengthBetween_def)

lemma keeps_StringLengthGreaterThan: "keeps (StringLengthGreaterThan v lo msg)"
  using keeps_IntGreaterThan by (simp add: keeps_def StringLengthGreaterThan_def)

lemma keeps_StringLengthLessThan: "keeps (StringLengthLessThan v hi msg)"
  using keeps_IntLessThan by (simp add: keeps_def StringLengthLessThan_def)

lemma keeps_StringLengthGreaterThanOrEqual: "keeps (StringLengthGreaterThanOrEqual v lo msg)"
  using keeps_IntGreaterThanOrEqual by (simp add: keeps_def StringLengthGreaterThanOrEqual_def)

lemma keeps_StringLengthLessThanOrEqual: "keeps (StringLengthLessThanOrEqual v hi msg)"
  using keeps_IntLessThanOrEqual by (simp add: keeps_def StringLengthLessThanOrEqual_def)

lemma keeps_StringInStringSlice: "keeps (StringInStringSlice v vs msg)"
  using keeps_Invalid[of "msgOrDefault msg NewShouldBeInStringSlice"]
  by (auto simp: keeps_def StringInStringSlice_def split: prod.splits sum.splits)

lemma snd_discard: "snd (discard r) = snd r"
  by (simp add: discard_def split: prod.splits sum.splits)

lemma keeps_discard: "keeps f \<Longrightarrow> keeps (\<lambda>i. discard (f i))"
  by (simp add: keeps_def snd_discard)

lemma Is_invariant_cursor:
  "Is_invariant i \<Longrightarrow> constructed q \<Longrightarrow> Is_invariant (i\<lparr>currentPath := q\<rparr>)"
  by (simp add: Is_invariant_def tree_total_def)

lemma keeps_With:
  assumes "\<And>j. Is_invariant j \<Longrightarrow> Is_invariant (snd (wrap j))"
  shows "keeps (With wrap)"
proof -
  have "Is_invariant (snd (With wrap i)) \<and> currentPath (snd (With wrap i)) = currentPath i"
    if inv: "Is_invariant i" for i
  proof -
    have w: "snd (With wrap i) = (snd (wrap i))\<lparr>currentPath := currentPath i\<rparr>"
      by (simp add: With_def Let_def split: prod.splits)
    have "constructed (currentPath i)" using inv by (simp add: Is_invariant_def)
    then show ?thesis using Is_invariant_cursor[OF assms[OF inv]] w by simp
  qed
  then show ?thesis by (simp add: keeps_def)
qed

lemma keeps_WithField:
  assumes "\<And>j. Is_invariant j \<Longrightarrow> Is_invariant (snd (wrap j))"
  shows "keeps (WithField name wrap)"
  unfolding WithField_def
proof (rule keeps_With)
  fix j assume inv: "Is_invariant j"
  show "Is_invariant (snd (case DownField (currentPath j) name of
                             Inl p \<Rightarrow> (Inl p, j) | Inr q \<Rightarrow> wrap (j\<lparr>currentPath := q\<rparr>)))"
  proof (cases "DownField (currentPath j) name")
    case (Inl p)
    then show ?thesis using inv by simp
  next
    case (Inr q)
    have "constructed (currentPath j)" using inv by (simp add: Is_invariant_def)
    then have "constructed q" using Inr by (rule constructed_field)
    then show ?thesis using Inr assms[OF Is_invariant_cursor[OF inv]] by simp
  qed
qed

lemma keeps_WithIndex:
  assumes "\<And>j. Is_invariant j \<Longrightarrow> Is_invariant (snd (wrap j))"
  shows "keeps (WithIndex index wrap)"
  unfolding WithIndex_def
proof (rule keeps_With)
  fix j assume inv: "Is_invariant j"
  have "constructed (currentPath j)" using inv by (simp add: Is_invariant_def)
  then have "constructed (DownIndex (currentPath j) index)" by (rule constructed_index)
  then show "Is_invariant (snd (wrap (j\<lparr>currentPath := DownIndex (currentPath j) index\<rparr>)))"
    using assms[OF Is_invariant_cursor[OF inv]] by simp
qed

lemma run_keeps:
  "Is_invariant i \<Longrightarrow> Is_invariant (snd (run c i)) \<and> currentPath (snd (run c i)) = currentPath i"
  "Is_invariant i \<Longrightarrow> Is_invariant (snd (run_list cs i)) \<and> currentPath (snd (run_list cs i)) = currentPath i"
proof (induction c i and cs i rule: run_run_list.induct)
  case (1 msg i)
  then show ?case using keeps_Invalid[of msg] by (simp add: keeps_def)
next
  case (2 v msg i)
  then show ?case using keeps_True_Is[of v msg] by (simp add: keeps_def snd_discard)
next
  case (3 v msg i)
  then show ?case using keeps_False_Is[of v msg] by (simp add: keeps_def snd_discard)
next
  case (4 v i)
  then show ?case using keeps_Required[of v] by (simp add: keeps_def snd_discard)
next
  case (5 v lo hi msg i)
  then show ?case using keeps_IntBetween[of v lo hi msg] by (simp add: keeps_def snd_discard)
next
  case (6 v lo msg i)
  then show ?case using keeps_IntGreaterThan[of v lo msg] by (simp add: keeps_def snd_discard)
next
  case (7 v hi msg i)
  then show ?case using keeps_IntLessThan[of v hi msg] by (simp add: keeps_def snd_discard)
next
  case (8 v lo msg i)
  then show ?case using keeps_IntGreaterThanOrEqual[of v lo msg] by (simp add: keeps_def snd_discard)
next
  case (9 v hi msg i)
  then show ?case using keeps_IntLessThanOrEqual[of v hi msg] by (simp add: keeps_def snd_discard)
next
  case (10 v lo hi msg i)
  then show ?case using keeps_StringLengthBetween[of v lo hi msg] by (simp add: keeps_def snd_discard)
next
  case (11 v lo msg i)
  then show ?case using keeps_StringLengthGreaterThan[of v lo msg] by (simp add: keeps_def snd_discard)
next
  case (12 v hi msg i)
  then show ?case using keeps_StringLengthLessThan[of v hi msg] by (simp add: keeps_def snd_discard)
next
  case (13 v lo msg i)
  then show ?case using keeps_StringLengthGreaterThanOrEqual[of v lo msg]
    by (simp add: keeps_def snd_discard)
next
  case (14 v hi msg i)
  then show ?case using keeps_StringLengthLessThanOrEqual[of v hi msg]
    by (simp add: keeps_def snd_discard)
next
  case (15 v vs msg i)
  then show ?case using keeps_StringInStringSlice[of v vs msg] by (simp add: keeps_def snd_discard)
next
  case (16 cs i)
  have "keeps (With (\<lambda>j. run_list cs j))" by (rule keeps_With) (simp add: 16(1))
  then show ?case using 16(2) by (simp add: keeps_def)
next
  case (17 name cs i)
  have "keeps (WithField name (\<lambda>j. run_list cs j))" by (rule keeps_WithField) (simp add: 17(1))
  then show ?case using 17(2) by (simp add: keeps_def)
next
  case (18 index cs i)
  have "keeps (WithIndex index (\<lambda>j. run_list cs j))" by (rule keeps_WithIndex) (simp add: 18(1))
  then show ?case using 18(2) by (simp add: keeps_def)
next
  case (19 i)
  then show ?case by simp
next
  case (20 cs i)
  then show ?case by (cases "run_list cs i") auto
next
  case (21 i)
  then show ?case by simp
next
  case (22 c cs i)
  show ?case
  proof (cases "run c i")
    case (Pair r i')
    have i': "Is_invariant i' \<and> currentPath i' = currentPath i" using 22(1)[OF 22(3)] Pair by simp
    show ?thesis
    proof (cases r)
      case (Inl p)
      then show ?thesis using Pair i' by simp
    next
      case (Inr u)
      have "Is_invariant (snd (run_list cs i')) \<and> currentPath (snd (run_list cs i')) = currentPath i'"
        using 22(2) Pair Inr i' by auto
      then show ?thesis using Pair Inr i' by simp
    qed
  qed
qed


lemma NewRoot_invariant: "Is_invariant NewRoot"
  by (simp add: Is_invariant_def NewRoot_def constructed_root tree_total_def)

lemma Is_zero_invariant: "Is_invariant Is_zero"
  by (simp add: Is_invariant_def Is_zero_def constructed_empty tree_total_def)

lemma sint_of_nat_small:
  assumes "n < 2 ^ 63"
  shows "sint (of_nat n :: 64 word) = int n"
proof -
  have "sint (word_of_int (int n) :: 64 word) = signed_take_bit (LENGTH(64) - 1) (int n)"
    by (rule sint_sbintrunc')
  also have "\<dots> = int n"
  proof (rule signed_take_bit_int_eq_self)
    show "- (2 ^ (LENGTH(64) - 1)) \<le> int n" by simp
    have "int n < int (2 ^ 63)" using assms by (simp only: of_nat_less_iff)
    then show "int n < 2 ^ (LENGTH(64) - 1)" by simp
  qed
  finally show ?thesis by simp
qed

lemma of_nat_zero_small:
  assumes "n < 2 ^ 63"
  shows "(of_nat n :: 64 word) = 0 \<longleftrightarrow> n = 0"
proof
  assume z: "(of_nat n :: 64 word) = 0"
  show "n = 0"
  proof (rule ccontr)
    assume "n \<noteq> 0"
    then have "0 < n" by simp
    moreover have "n < 2 ^ LENGTH(64)" using assms by simp
    ultimately have "(of_nat n :: 64 word) \<noteq> 0" by (rule of_nat_neq_0)
    then show False using z by simp
  qed
next
  assume "n = 0"
  then show "(of_nat n :: 64 word) = 0" by simp
qed

lemma list_ex_children_total:
  "\<forall>(k, c) \<in> set cs. HasErrors_node c \<longleftrightarrow> total_errors c \<noteq> 0 \<Longrightarrow>
     list_ex (\<lambda>(k, c). HasErrors_node c) cs \<longleftrightarrow> children_total cs \<noteq> 0"
  by (induction cs) auto

lemma HasErrors_node_total: "HasErrors_node n \<longleftrightarrow> total_errors n \<noteq> 0"
proof (induction n rule: total_errors.induct)
  case (1 nc xc es)
  have a: "list_ex (\<lambda>(k, c). HasErrors_node c) cs \<longleftrightarrow> children_total cs \<noteq> 0"
    if "nc = Some cs" for cs
    using 1(1)[OF that] by (intro list_ex_children_total) auto
  have b: "list_ex (\<lambda>(k, c). HasErrors_node c) cs \<longleftrightarrow> children_total cs \<noteq> 0"
    if "xc = Some cs" for cs
    using 1(2)[OF that] by (intro list_ex_children_total) auto
  show ?case
  proof (cases nc)
    case None
    show ?thesis
    proof (cases xc)
      case n2: None
      show ?thesis using None n2 by (auto simp: slice_elems_def split: option.splits)
    next
      case (Some xs)
      show ?thesis using None Some b[OF Some] by (auto simp: slice_elems_def split: option.splits)
    qed
  next
    case (Some ns)
    show ?thesis
    proof (cases xc)
      case None
      show ?thesis using None Some a[OF Some] by (auto simp: slice_elems_def split: option.splits)
    next
      case s2: (Some xs)
      show ?thesis using Some s2 a[OF Some] b[OF s2]
        by (auto simp: slice_elems_def split: option.splits)
    qed
  qed
qed

text \<open>\<open>Is.Errors\<close>: the root of the tree, a new node when there is none yet.\<close>

definition Errors_Is :: "Is \<Rightarrow> ErrorNode" where
  "Errors_Is i = (case errorsRoot (errors i) of None \<Rightarrow> NewErrorNode | Some r \<Rightarrow> r)"

lemma total_Errors_Is: "total_errors (Errors_Is i) = tree_total i"
  by (simp add: Errors_Is_def errors_def tree_total_def total_NewErrorNode split: option.splits)

subsection \<open>The claim about Len and HasErrors\<close>

text \<open>
  C10. After every sequence of operations on an \<open>Is\<close> that starts as \<open>NewRoot()\<close> or
  as the zero value, with \<open>k\<close> the number of calls of \<open>Invalid\<close> made so far (direct
  ones and those that a failed \<open>True\<close>, \<open>False\<close>, \<open>Required\<close>, range or string check
  makes): the tree holds exactly \<open>k\<close> error values in all its nodes; the counter is
  \<open>k\<close> modulo \<open>2 ^ 64\<close>, so that \<open>Len\<close> returns \<open>k\<close> and \<open>HasErrors\<close>, which only
  compares the counter with 0, is true if and only if \<open>k\<close> is not 0, as long as \<open>k\<close>
  is below \<open>2 ^ 63\<close> (a tree of \<open>2 ^ 63\<close> error values does not fit in memory); and
  \<open>HasErrors\<close> of the root node, which walks the tree, gives the same answer. The
  cursor is where it started.
\<close>

theorem Len_counts_recorded_errors:
  assumes "start = NewRoot \<or> start = Is_zero"
  shows
  "tree_total (snd (run_list calls start)) = length (invalidLog (snd (run_list calls start))) \<and>
   errorsCount (snd (run_list calls start))
     = of_nat (length (invalidLog (snd (run_list calls start)))) \<and>
   (length (invalidLog (snd (run_list calls start))) < 2 ^ 63 \<longrightarrow>
      Len (snd (run_list calls start)) = int (length (invalidLog (snd (run_list calls start)))) \<and>
      (HasErrors (snd (run_list calls start))
         \<longleftrightarrow> length (invalidLog (snd (run_list calls start))) \<noteq> 0)) \<and>
   (HasErrors_node (Errors_Is (snd (run_list calls start)))
      \<longleftrightarrow> length (invalidLog (snd (run_list calls start))) \<noteq> 0) \<and>
   currentPath (snd (run_list calls start)) = currentPath start"
proof -
  let ?i = "snd (run_list calls start)"
  let ?k = "length (invalidLog ?i)"
  have st: "Is_invariant start" using assms NewRoot_invariant Is_zero_invariant by blast
  from run_keeps(2)[OF st, of calls]
  have inv: "Is_invariant ?i" and cur: "currentPath ?i = currentPath start" by simp_all
  from inv have t: "tree_total ?i = ?k" and c: "errorsCount ?i = of_nat ?k"
    by (simp_all add: Is_invariant_def)
  have len: "Len ?i = int ?k" if "?k < 2 ^ 63"
  proof -
    have "sint (of_nat ?k :: 64 word) = int ?k"
      using that by (rule sint_of_nat_small)
    then show ?thesis by (simp add: Len_def c)
  qed
  have has: "HasErrors ?i \<longleftrightarrow> ?k \<noteq> 0" if "?k < 2 ^ 63"
  proof -
    have "(of_nat ?k :: 64 word) = 0 \<longleftrightarrow> ?k = 0"
      using that by (rule of_nat_zero_small)
    then show ?thesis by (simp add: HasErrors_def c)
  qed
  have walk: "HasErrors_node (Errors_Is ?i) \<longleftrightarrow> ?k \<noteq> 0"
    by (simp add: HasErrors_node_total total_Errors_Is t)
  show ?thesis using t c len has walk cur by simp
qed

theorem Len_counts_recorded_errors_witness:
  "length (invalidLog (snd (run_list
      [ClientRecovers
         [CallWithField ''a'' [CallRequired False, CallWithIndex 2 [CallTrue False None, ClientPanics]]],
       CallInvalid ShouldBeTrueErr] NewRoot))) = 3 \<and>
   (3 :: nat) < 2 ^ 63 \<and>
   tree_total (snd (run_list
      [ClientRecovers
         [CallWithField ''a'' [CallRequired False, CallWithIndex 2 [CallTrue False None, ClientPanics]]],
       CallInvalid ShouldBeTrueErr] NewRoot)) = 3 \<and>
   Len (snd (run_list
      [ClientRecovers
         [CallWithField ''a'' [CallRequired False, CallWithIndex 2 [CallTrue False None, ClientPanics]]],
       CallInvalid ShouldBeTrueErr] NewRoot)) = 3 \<and>
   HasErrors (snd (run_list
      [ClientRecovers
         [CallWithField ''a'' [CallRequired False, CallWithIndex 2 [CallTrue False None, ClientPanics]]],
       CallInvalid ShouldBeTrueErr] NewRoot)) \<and>
   length (invalidLog (snd (run_list
      [CallWithField ''zoey'' [CallTrue True None], CallWithField ''zoey'' [CallTrue False None]]
      Is_zero))) = 1 \<and>
   (1 :: nat) < 2 ^ 63 \<and>
   Len (snd (run_list
      [CallWithField ''zoey'' [CallTrue True None], CallWithField ''zoey'' [CallTrue False None]]
      Is_zero)) = 1 \<and>
   HasErrors (snd (run_list
      [CallWithField ''zoey'' [CallTrue True None], CallWithField ''zoey'' [CallTrue False None]]
      Is_zero)) \<and>
   currentPath (snd (run_list
      [CallWithField ''zoey'' [CallTrue True None], CallWithField ''zoey'' [CallTrue False None]]
      Is_zero)) = []"
proof -
  let ?q = "[ClientRecovers
         [CallWithField ''a'' [CallRequired False, CallWithIndex 2 [CallTrue False None, ClientPanics]]],
       CallInvalid ShouldBeTrueErr]"
  let ?z = "[CallWithField ''zoey'' [CallTrue True None], CallWithField ''zoey'' [CallTrue False None]]"
  have kq: "length (invalidLog (snd (run_list ?q NewRoot))) = 3" by code_simp
  have kz: "length (invalidLog (snd (run_list ?z Is_zero))) = 1" by code_simp
  have b: "(3 :: nat) < 2 ^ 63" "(1 :: nat) < 2 ^ 63" by simp_all
  have s: "NewRoot = NewRoot \<or> NewRoot = Is_zero" "Is_zero = NewRoot \<or> Is_zero = Is_zero"
    by simp_all
  have z: "currentPath Is_zero = []" by (simp add: Is_zero_def)
  show ?thesis
    using kq kz b z Len_counts_recorded_errors[OF s(1), of ?q]
      Len_counts_recorded_errors[OF s(2), of ?z]
    by simp
qed

end
